theory Spec2Isabelle
  imports
    Main
    "HOL-Library.Char_ord"
    "HOL-Library.List_Lexorder"
    "HOL-Library.AList"
    "HOL-Library.Sublist"
    "HOL-Library.Multiset"
    "HOL-Library.Word"
begin

unbundle bit_operations_syntax

section \<open>Python values and the operating system, as far as the generator sees them\<close>

text \<open>
  The generator (\<^verbatim>\<open>static_container_registry.py\<close>) walks a directory tree, parses every
  \<^verbatim>\<open>manifest.json\<close> it finds, hashes the accepted ones and prints nginx \<^verbatim>\<open>location\<close> blocks.
  Python \<^verbatim>\<open>str\<close> is modelled as \<^typ>\<open>string\<close> (code points below 256, ordered by code point,
  which is how Python compares strings); \<^verbatim>\<open>bytes\<close> as a list of 8-bit words.
\<close>

type_synonym byte = "8 word"
type_synonym bytes = "byte list"

text \<open>
  A Python float as \<^verbatim>\<open>json.load\<close> can return it: a finite float is a dyadic rational,
  \<open>Finite m e\<close> standing for \<open>m * 2 ^ e\<close>; \<^verbatim>\<open>NaN\<close> and \<^verbatim>\<open>Infinity\<close> are accepted too.
\<close>

datatype py_float = Finite int int | PosInf | NegInf | NaN

fun float_nonzero :: "py_float \<Rightarrow> bool" where
  "float_nonzero (Finite m e) = (m \<noteq> 0)"
| "float_nonzero _ = True"

fun float_eq_int :: "py_float \<Rightarrow> int \<Rightarrow> bool" where
  "float_eq_int (Finite m e) k = (if 0 \<le> e then m * 2 ^ nat e = k else m = k * 2 ^ nat (- e))"
| "float_eq_int _ k = False"

text \<open>
  What \<^verbatim>\<open>json.load\<close> returns: \<^verbatim>\<open>None\<close>, a bool, an int, a float, a str, a list or a dict.
  A dict is kept as its items in insertion order; the keys of a dict are distinct.
\<close>

datatype json =
    JNull
  | JBool bool
  | JInt int
  | JFloat py_float
  | JString string
  | JArray "json list"
  | JObject "(string \<times> json) list"

text \<open>The exceptions that can leave the generator.\<close>

datatype error =
    NotADirectoryError
  | FileNotFoundError
  | IsADirectoryError
  | UnicodeDecodeError
  | AttributeError

text \<open>
  The outcome of \<^verbatim>\<open>json.load\<close> on a file opened as UTF-8 text: a value, the
  \<^verbatim>\<open>json.JSONDecodeError\<close> that \<^verbatim>\<open>find_images\<close> catches, or another exception
  (such as \<^verbatim>\<open>UnicodeDecodeError\<close> on bytes that are not UTF-8), which it does not catch.
  The parser belongs to the Python library, so it is a parameter of the model.
\<close>

datatype load_result = Loaded json | JSONDecodeError | Raised error

type_synonym loader = "bytes \<Rightarrow> load_result"

text \<open>Python truthiness (\<^verbatim>\<open>if not data\<close>).\<close>

fun truthy :: "json \<Rightarrow> bool" where
  "truthy JNull = False"
| "truthy (JBool b) = b"
| "truthy (JInt n) = (n \<noteq> 0)"
| "truthy (JFloat f) = float_nonzero f"
| "truthy (JString s) = (s \<noteq> [])"
| "truthy (JArray xs) = (xs \<noteq> [])"
| "truthy (JObject kvs) = (kvs \<noteq> [])"

text \<open>
  \<^verbatim>\<open>data.get(key)\<close>: on a dict the value or \<^verbatim>\<open>None\<close>; no other JSON value has an
  attribute \<^verbatim>\<open>get\<close>.
\<close>

fun py_get :: "json \<Rightarrow> string \<Rightarrow> error + json" where
  "py_get (JObject kvs) key = Inr (case map_of kvs key of None \<Rightarrow> JNull | Some v \<Rightarrow> v)"
| "py_get _ key = Inl AttributeError"

text \<open>Python \<^verbatim>\<open>v == k\<close> for an int \<^verbatim>\<open>k\<close>: numbers compare by value, \<^verbatim>\<open>True\<close> is 1.\<close>

fun py_eq_int :: "json \<Rightarrow> int \<Rightarrow> bool" where
  "py_eq_int (JInt n) k = (n = k)"
| "py_eq_int (JBool b) k = ((if b then 1 else 0) = k)"
| "py_eq_int (JFloat f) k = float_eq_int f k"
| "py_eq_int _ k = False"

subsection \<open>The file system\<close>

text \<open>
  A file-system object is a regular file with its content or a directory with its entries in
  the order \<^verbatim>\<open>os.listdir\<close> reports them (an order the operating system chooses). Paths are
  lists of components below the root the generator is started on; \<^verbatim>\<open>os.path.join\<close> of the
  root and names that \<^verbatim>\<open>os.listdir\<close> returned appends components.
\<close>

datatype node = File bytes | Dir "(string \<times> node) list"

type_synonym path = "string list"

fun resolve :: "node \<Rightarrow> path \<Rightarrow> node option" where
  "resolve n [] = Some n"
| "resolve (File _) (c # cs) = None"
| "resolve (Dir es) (c # cs) = (case map_of es c of None \<Rightarrow> None | Some n \<Rightarrow> resolve n cs)"

definition listdir :: "node \<Rightarrow> path \<Rightarrow> error + string list" where
  "listdir root p =
     (case resolve root p of
        None \<Rightarrow> Inl FileNotFoundError
      | Some (File _) \<Rightarrow> Inl NotADirectoryError
      | Some (Dir es) \<Rightarrow> Inr (map fst es))"

definition isdir :: "node \<Rightarrow> path \<Rightarrow> bool" where
  "isdir root p = (case resolve root p of Some (Dir _) \<Rightarrow> True | _ \<Rightarrow> False)"

definition isfile :: "node \<Rightarrow> path \<Rightarrow> bool" where
  "isfile root p = (case resolve root p of Some (File _) \<Rightarrow> True | _ \<Rightarrow> False)"

text \<open>\<^verbatim>\<open>open(path)\<close> followed by reading everything.\<close>

definition open_read :: "node \<Rightarrow> path \<Rightarrow> error + bytes" where
  "open_read root p =
     (case resolve root p of
        None \<Rightarrow> Inl FileNotFoundError
      | Some (Dir _) \<Rightarrow> Inl IsADirectoryError
      | Some (File bs) \<Rightarrow> Inr bs)"

section \<open>Image discovery: \<^verbatim>\<open>find_images\<close>\<close>

definition MANIFEST_JSON :: string where
  "MANIFEST_JSON = ''manifest.json''"

definition media_types :: "string list" where
  "media_types =
     [''application/vnd.docker.distribution.manifest.v2+json'',
      ''application/vnd.oci.image.manifest.v1+json'']"

text \<open>\<^verbatim>\<open>media_type in [...]\<close>: only a str equals a str.\<close>

fun media_type_in :: "json \<Rightarrow> string list \<Rightarrow> string option" where
  "media_type_in (JString s) allowed = (if s \<in> set allowed then Some s else None)"
| "media_type_in _ allowed = None"

text \<open>
  The checks on the loaded value: \<open>Inr None\<close> is \<^verbatim>\<open>continue\<close>, \<open>Inr (Some m)\<close> lets
  the tag through with media type \<open>m\<close>, \<open>Inl e\<close> is an exception that nothing catches.
\<close>

definition check_data :: "json \<Rightarrow> error + string option" where
  "check_data data =
     (if \<not> truthy data then Inr None
      else
        case py_get data ''schemaVersion'' of
          Inl e \<Rightarrow> Inl e
        | Inr version \<Rightarrow>
           if \<not> py_eq_int version 2 then Inr None
           else
             (case py_get data ''mediaType'' of
                Inl e \<Rightarrow> Inl e
              | Inr media_type \<Rightarrow> Inr (media_type_in media_type media_types)))"

text \<open>
  The body of the inner loop for one tag; a \<^verbatim>\<open>json.JSONDecodeError\<close> is caught and
  \<^verbatim>\<open>data\<close> set to \<^verbatim>\<open>None\<close>.
\<close>

definition check_tag :: "loader \<Rightarrow> node \<Rightarrow> string \<Rightarrow> string \<Rightarrow> error + string option" where
  "check_tag load root name tag =
     (if \<not> isdir root [name, tag] then Inr None
      else if \<not> isfile root [name, tag, MANIFEST_JSON] then Inr None
      else
        case open_read root [name, tag, MANIFEST_JSON] of
          Inl e \<Rightarrow> Inl e
        | Inr content \<Rightarrow>
           (case load content of
              Raised e \<Rightarrow> Inl e
            | JSONDecodeError \<Rightarrow> check_data JNull
            | Loaded data \<Rightarrow> check_data data))"

fun tags_loop ::
  "loader \<Rightarrow> node \<Rightarrow> string \<Rightarrow> string list \<Rightarrow> error + (string \<times> string \<times> string) list" where
  "tags_loop load root name [] = Inr []"
| "tags_loop load root name (tag # tags) =
     (case check_tag load root name tag of
        Inl e \<Rightarrow> Inl e
      | Inr r \<Rightarrow>
         (case tags_loop load root name tags of
            Inl e \<Rightarrow> Inl e
          | Inr found \<Rightarrow>
              Inr ((case r of None \<Rightarrow> [] | Some m \<Rightarrow> [(name, tag, m)]) @ found)))"

fun names_loop ::
  "loader \<Rightarrow> node \<Rightarrow> string list \<Rightarrow> error + (string \<times> string \<times> string) list" where
  "names_loop load root [] = Inr []"
| "names_loop load root (name # names) =
     (if \<not> isdir root [name] then names_loop load root names
      else
        case listdir root [name] of
          Inl e \<Rightarrow> Inl e
        | Inr tags \<Rightarrow>
           (case tags_loop load root name tags of
              Inl e \<Rightarrow> Inl e
            | Inr found \<Rightarrow>
               (case names_loop load root names of
                  Inl e \<Rightarrow> Inl e
                | Inr more \<Rightarrow> Inr (found @ more))))"

text \<open>
  The generator \<^verbatim>\<open>find_images\<close>, run to its end: the triples it yields in order, or the first
  exception. Its only consumer drains it before using any triple.
\<close>

definition find_images :: "loader \<Rightarrow> node \<Rightarrow> error + (string \<times> string \<times> string) list" where
  "find_images load root =
     (case listdir root [] of
        Inl e \<Rightarrow> Inl e
      | Inr names \<Rightarrow> names_loop load root names)"

section \<open>Digests: \<^verbatim>\<open>compute_digest\<close>\<close>

text \<open>
  \<^verbatim>\<open>iter(lambda: file.read(4096), b'')\<close>: the successive results of \<^verbatim>\<open>file.read(4096)\<close>
  up to, and without, the first empty one.
\<close>

function read_chunks :: "bytes \<Rightarrow> bytes list" where
  "read_chunks content =
     (let chunk = take 4096 content in
      if chunk = [] then [] else chunk # read_chunks (drop 4096 content))"
  by pat_completeness auto
termination
  by (relation "measure length") auto

text \<open>
  A \<^verbatim>\<open>hashlib\<close> object is the data it has been fed: \<^verbatim>\<open>update\<close> appends, and
  \<^verbatim>\<open>hexdigest\<close> prints the hash of all of it as lowercase hexadecimal. The hash function
  itself (SHA-256, from the Python library) is the parameter \<open>H\<close>.
\<close>

type_synonym hash_fun = "bytes \<Rightarrow> 256 word"

definition sha256_new :: bytes where
  "sha256_new = []"

definition sha256_update :: "bytes \<Rightarrow> bytes \<Rightarrow> bytes" where
  "sha256_update fed chunk = fed @ chunk"

definition hex_digit :: "nat \<Rightarrow> char" where
  "hex_digit n = ''0123456789abcdef'' ! (n mod 16)"

definition hexdigest :: "hash_fun \<Rightarrow> bytes \<Rightarrow> string" where
  "hexdigest H fed = map (\<lambda>i. hex_digit (unat (drop_bit (4 * (63 - i)) (H fed)))) [0..<64]"

definition compute_digest :: "hash_fun \<Rightarrow> node \<Rightarrow> path \<Rightarrow> error + string" where
  "compute_digest H root filename =
     (case open_read root filename of
        Inl e \<Rightarrow> Inl e
      | Inr content \<Rightarrow> Inr (hexdigest H (foldl sha256_update sha256_new (read_chunks content))))"

section \<open>Output fragments\<close>

text \<open>\<^verbatim>\<open>sep.join(items)\<close>.\<close>

fun join :: "string \<Rightarrow> string list \<Rightarrow> string" where
  "join sep [] = []"
| "join sep [x] = x"
| "join sep (x # y # ys) = x @ sep @ join sep (y # ys)"

text \<open>\<^verbatim>\<open>s.lstrip('/')\<close>, \<^verbatim>\<open>s.rstrip('/')\<close> and \<^verbatim>\<open>s.strip('/')\<close>.\<close>

definition lstrip :: "char \<Rightarrow> string \<Rightarrow> string" where
  "lstrip c s = dropWhile (\<lambda>x. x = c) s"

definition rstrip :: "char \<Rightarrow> string \<Rightarrow> string" where
  "rstrip c s = rev (dropWhile (\<lambda>x. x = c) (rev s))"

definition strip :: "char \<Rightarrow> string \<Rightarrow> string" where
  "strip c s = lstrip c (rstrip c s)"

subsection \<open>\<^verbatim>\<open>json.dumps\<close> on the two values the generator prints\<close>

text \<open>
  With the default \<^verbatim>\<open>ensure_ascii\<close>, a character is kept when it is printable ASCII
  other than the quote and the backslash, and escaped otherwise.
\<close>

definition escape_char :: "char \<Rightarrow> string" where
  \<open>escape_char c =
     (if c = CHR 0x5C then [CHR 0x5C, CHR 0x5C]
      else if c = CHR 0x22 then [CHR 0x5C, CHR 0x22]
      else if c = CHR 0x08 then [CHR 0x5C, CHR ''b'']
      else if c = CHR 0x0C then [CHR 0x5C, CHR ''f'']
      else if c = CHR 0x0A then [CHR 0x5C, CHR ''n'']
      else if c = CHR 0x0D then [CHR 0x5C, CHR ''r'']
      else if c = CHR 0x09 then [CHR 0x5C, CHR ''t'']
      else if 32 \<le> (of_char c :: nat) \<and> (of_char c :: nat) \<le> 126 then [c]
      else [CHR 0x5C, CHR ''u'', CHR ''0'', CHR ''0'',
            hex_digit ((of_char c :: nat) div 16), hex_digit (of_char c :: nat)])\<close>

definition dumps_str :: "string \<Rightarrow> string" where
  \<open>dumps_str s = [CHR 0x22] @ concat (map escape_char s) @ [CHR 0x22]\<close>

text \<open>A list and a dict whose members are already printed.\<close>

definition dumps_list :: "string list \<Rightarrow> string" where
  "dumps_list items = ''['' @ join '', '' items @ '']''"

definition dumps_dict :: "(string \<times> string) list \<Rightarrow> string" where
  "dumps_dict items = ''{'' @ join '', '' (map (\<lambda>(k, v). dumps_str k @ '': '' @ v) items) @ ''}''"

text \<open>\<^verbatim>\<open>json.dumps({'name': name, 'tags': tags})\<close>.\<close>

definition dumps_tag_list :: "string \<Rightarrow> string list \<Rightarrow> string" where
  "dumps_tag_list name tags =
     dumps_dict [(''name'', dumps_str name), (''tags'', dumps_list (map dumps_str tags))]"

text \<open>The \<^verbatim>\<open>TAG_INVALID\<close> body of \<^verbatim>\<open>CONSTANTS\<close>.\<close>

definition tag_invalid :: string where
  "tag_invalid =
     dumps_dict [(''errors'', dumps_list [dumps_dict
       [(''code'', dumps_str ''TAG_INVALID''),
        (''message'', dumps_str ''manifest tag did not match URI''),
        (''detail'', dumps_str [])]])]"

subsection \<open>The templates\<close>

text \<open>
  Each template is the source's format string with doubled braces read as braces and
  the named fields filled in; the arguments are the keyword arguments of \<^verbatim>\<open>format\<close>.
\<close>

definition CONSTANTS :: string where
  \<open>CONSTANTS =
     ''\<newline>location = /v2 {\<newline>    return 301 /v2/;\<newline>}\<newline>'' @
     ''\<newline>location = /v2/ {\<newline>    return 200 'ok';\<newline>}\<newline>'' @
     ''\<newline>location @404_tag {\<newline>    internal;\<newline>'' @
     ''    types { } default_type "application/json";\<newline>'' @
     ''    return 404 '' @ [CHR 0x27] @ tag_invalid @ [CHR 0x27] @ '';\<newline>}\<newline>''\<close>

definition tags_list_location :: "string \<Rightarrow> string \<Rightarrow> string \<Rightarrow> string" where
  \<open>tags_list_location name name_prefix payload =
     ''\<newline>location = /v2/'' @ name_prefix @ name @ ''/tags/list {\<newline>'' @
     ''    types { } default_type "application/json";\<newline>'' @
     ''    return 200 '' @ [CHR 0x27] @ payload @ [CHR 0x27] @ '';\<newline>}\<newline>''\<close>

definition manifest_tag_location ::
  "string \<Rightarrow> string \<Rightarrow> string \<Rightarrow> string \<Rightarrow> string \<Rightarrow> string \<Rightarrow> string" where
  \<open>manifest_tag_location name tag media_type name_prefix digest server_root =
     ''\<newline>location = "/v2/'' @ name_prefix @ name @ ''/manifests/'' @ tag @ ''" {\<newline>'' @
     ''    alias '' @ server_root @ ''/'' @ name @ ''/'' @ tag @ ''/;\<newline>'' @
     ''    types { } default_type "'' @ media_type @ ''";\<newline>'' @
     ''    add_header 'Docker-Content-Digest' 'sha256:'' @ digest @ [CHR 0x27] @ '';\<newline>'' @
     ''    try_files manifest.json =404;\<newline>'' @
     ''    error_page 404 @404_tag;\<newline>}\<newline>''\<close>

definition manifest_digest_location ::
  "string \<Rightarrow> string \<Rightarrow> string \<Rightarrow> string \<Rightarrow> string \<Rightarrow> string \<Rightarrow> string" where
  \<open>manifest_digest_location name tag media_type name_prefix digest server_root =
     ''\<newline>location = "/v2/'' @ name_prefix @ name @ ''/manifests/sha256:'' @ digest @ ''" {\<newline>'' @
     ''    alias '' @ server_root @ ''/'' @ name @ ''/'' @ tag @ ''/;\<newline>'' @
     ''    types { } default_type "'' @ media_type @ ''";\<newline>'' @
     ''    add_header 'Docker-Content-Digest' 'sha256:'' @ digest @ [CHR 0x27] @ '';\<newline>'' @
     ''    try_files manifest.json =404;\<newline>'' @
     ''    error_page 404 @404_tag;\<newline>}\<newline>''\<close>

definition already_served :: "string \<Rightarrow> string \<Rightarrow> string" where
  \<open>already_served name tag =
     ''\<newline># Digest for "'' @ name @ '':'' @ tag @ ''" already served\<newline>''\<close>

definition blobs_location :: "string \<Rightarrow> string \<Rightarrow> string \<Rightarrow> string \<Rightarrow> string" where
  \<open>blobs_location name_prefix server_root name paths =
     ''\<newline>location ~ "/v2/'' @ name_prefix @ name @ ''/blobs/sha256:([a-f0-9]{64})" {\<newline>'' @
     ''    alias '' @ server_root @ ''/'' @ name @ ''/;\<newline>'' @
     ''    try_files '' @ paths @ '' =404;\<newline>}\<newline>''\<close>

section \<open>The generator: \<^verbatim>\<open>create_config\<close>\<close>

text \<open>
  The dict \<^verbatim>\<open>images\<close> maps a name to a dict from tag to media type. A Python dict keeps
  its items in insertion order: a new key goes to the end, an existing key keeps its place.
\<close>

type_synonym tags = "(string \<times> string) list"
type_synonym images = "(string \<times> tags) list"

text \<open>\<^verbatim>\<open>images.setdefault(name, {})[tag] = media_type\<close>.\<close>

definition add_image :: "images \<Rightarrow> string \<times> string \<times> string \<Rightarrow> images" where
  "add_image images found =
     (case found of (name, tag, media_type) \<Rightarrow>
        (let tags = (case map_of images name of None \<Rightarrow> [] | Some tags \<Rightarrow> tags)
         in AList.update name (AList.update tag media_type tags) images))"

text \<open>
  What the generator yields. There is one constructor for each \<^verbatim>\<open>yield\<close> of
  \<^verbatim>\<open>create_config\<close>, holding the keyword arguments of its \<^verbatim>\<open>format\<close> call in the order
  of the source; \<open>render\<close> is the text that is yielded.
\<close>

datatype fragment =
    Constants
  | TagsList string string string
  | ManifestTag string string string string string string
  | ManifestDigest string string string string string string
  | AlreadyServed string string
  | Blobs string string string string

fun render :: "fragment \<Rightarrow> string" where
  "render Constants = CONSTANTS"
| "render (TagsList name name_prefix payload) = tags_list_location name name_prefix payload"
| "render (ManifestTag name tag media_type name_prefix digest server_root) =
     manifest_tag_location name tag media_type name_prefix digest server_root"
| "render (ManifestDigest name tag media_type name_prefix digest server_root) =
     manifest_digest_location name tag media_type name_prefix digest server_root"
| "render (AlreadyServed name tag) = already_served name tag"
| "render (Blobs name_prefix server_root name paths) =
     blobs_location name_prefix server_root name paths"

text \<open>
  A run of the generator is the list of fragments it yields, in order, and the exception
  that ended it, if one did. \<^verbatim>\<open>main\<close> writes every fragment as soon as it is yielded, so
  the fragments before an exception are on the output.

  The manifests are hashed after discovery has ended, so the tree the digests are
  computed on (\<open>later\<close>) is a parameter of its own: on an unchanged tree it is the tree
  that was scanned.
\<close>

type_synonym run = "fragment list \<times> error option"

text \<open>
  The loop over \<^verbatim>\<open>sorted(tags.items())\<close>, with the set \<^verbatim>\<open>seen_digests\<close>.
\<close>

fun manifests_loop ::
  "hash_fun \<Rightarrow> node \<Rightarrow> string \<Rightarrow> string \<Rightarrow> string \<Rightarrow> string set \<Rightarrow> tags \<Rightarrow> run" where
  "manifests_loop H later server_root name_prefix name seen_digests [] = ([], None)"
| "manifests_loop H later server_root name_prefix name seen_digests ((tag, media_type) # rest) =
     (case compute_digest H later [name, tag, MANIFEST_JSON] of
        Inl e \<Rightarrow> ([], Some e)
      | Inr digest \<Rightarrow>
         (let (more, err) =
                manifests_loop H later server_root name_prefix name
                  (insert digest seen_digests) rest
          in (ManifestTag name tag media_type (lstrip CHR ''/'' name_prefix) digest server_root #
              (if digest \<notin> seen_digests
               then ManifestDigest name tag media_type (lstrip CHR ''/'' name_prefix)
                      digest server_root
               else AlreadyServed name tag) #
              more, err)))"

text \<open>
  The loop over \<^verbatim>\<open>sorted(images.items())\<close>. The keys of a dict are distinct, so sorting
  the items, which are pairs, is sorting them by key.
\<close>

fun images_loop :: "hash_fun \<Rightarrow> node \<Rightarrow> string \<Rightarrow> string \<Rightarrow> images \<Rightarrow> run" where
  "images_loop H later server_root name_prefix [] = ([], None)"
| "images_loop H later server_root name_prefix ((name, tags) # rest) =
     (let tag_list = TagsList name (lstrip CHR ''/'' name_prefix)
                       (dumps_tag_list name (sort (map fst tags)));
          (routes, err) =
             manifests_loop H later server_root name_prefix name {} (sort_key fst tags)
      in case err of
           Some e \<Rightarrow> (tag_list # routes, Some e)
         | None \<Rightarrow>
            (let blobs = Blobs (lstrip CHR ''/'' name_prefix) server_root name
                           (join '' '' (map (\<lambda>tag. tag @ ''/$1'') (sort (map fst tags))));
                 (more, err') = images_loop H later server_root name_prefix rest
             in (tag_list # routes @ blobs # more, err')))"

definition create_config ::
  "loader \<Rightarrow> hash_fun \<Rightarrow> node \<Rightarrow> node \<Rightarrow> string \<Rightarrow> string \<Rightarrow> bool \<Rightarrow> bool \<Rightarrow> run" where
  "create_config load H root later server_root name_prefix with_constants only_constants =
     (let constants = (if with_constants then [Constants] else []) in
      if only_constants then (constants, None)
      else
        case find_images load root of
          Inl e \<Rightarrow> (constants, Some e)
        | Inr found \<Rightarrow>
           (let images = foldl add_image [] found;
                (fragments, err) =
                   images_loop H later server_root name_prefix (sort_key fst images)
            in (constants @ fragments, err)))"

subsection \<open>The command line: \<^verbatim>\<open>main\<close>\<close>

text \<open>\<^verbatim>\<open>'{}/'.format((args.name_prefix or '').strip('/'))\<close>; an absent option is \<^verbatim>\<open>None\<close>.\<close>

definition normalize_name_prefix :: "string option \<Rightarrow> string" where
  "normalize_name_prefix arg =
     strip CHR ''/'' (case arg of None \<Rightarrow> [] | Some s \<Rightarrow> s) @ ''/''"

text \<open>
  \<^verbatim>\<open>main\<close> after \<^verbatim>\<open>parse_args\<close>: \<open>root_path\<close> is \<^verbatim>\<open>os.path.abspath(args.root)\<close> and
  \<open>root\<close> the tree found there. The result is what has been written to standard output,
  and the exception that ended the run, if any.
\<close>

definition main ::
  "loader \<Rightarrow> hash_fun \<Rightarrow> string option \<Rightarrow> bool \<Rightarrow> bool \<Rightarrow> string option \<Rightarrow> string \<Rightarrow>
   node \<Rightarrow> node \<Rightarrow> string \<times> error option" where
  "main load H arg_name_prefix omit_constants only_constants arg_server_root root_path
        root later =
     (let name_prefix = normalize_name_prefix arg_name_prefix;
          with_constants = \<not> omit_constants;
          server_root = (case arg_server_root of
                           None \<Rightarrow> root_path
                         | Some s \<Rightarrow> if s = [] then root_path else s);
          (parts, err) = create_config load H root later server_root name_prefix
                           with_constants only_constants
      in (concat (map render parts), err))"

section \<open>Example inputs\<close>

text \<open>The bytes of an ASCII text.\<close>

definition ascii :: "string \<Rightarrow> bytes" where
  "ascii s = map (\<lambda>c. of_nat (of_char c)) s"

definition docker_v2 :: string where
  "docker_v2 = ''application/vnd.docker.distribution.manifest.v2+json''"

text \<open>
  Three manifest files and what \<^verbatim>\<open>json.load\<close> returns on them: two Docker manifests that
  differ in a blank, and a file holding a JSON array. On any other content the example
  parser reports a \<^verbatim>\<open>JSONDecodeError\<close>, as the library does on the empty file.
\<close>

definition manifest_a :: bytes where
  \<open>manifest_a = ascii
     ''{"schemaVersion": 2, "mediaType": "application/vnd.docker.distribution.manifest.v2+json"}''\<close>

definition manifest_b :: bytes where
  \<open>manifest_b = ascii
     ''{"schemaVersion": 2,  "mediaType": "application/vnd.docker.distribution.manifest.v2+json"}''\<close>

definition manifest_array :: bytes where
  "manifest_array = ascii ''[1]''"

definition example_load :: loader where
  "example_load content =
     (if content = manifest_a \<or> content = manifest_b
      then Loaded (JObject [(''schemaVersion'', JInt 2), (''mediaType'', JString docker_v2)])
      else if content = manifest_array then Loaded (JArray [JInt 1])
      else JSONDecodeError)"

text \<open>
  A stand-in for the hash function in the examples: the length of the data. Every
  theorem below holds for all hash functions.
\<close>

definition example_hash :: hash_fun where
  "example_hash content = of_nat (length content)"

text \<open>
  \<^verbatim>\<open>app/v1\<close> and \<^verbatim>\<open>app/v2\<close> with the same manifest, listed in the order \<^verbatim>\<open>v2\<close>,
  \<^verbatim>\<open>v1\<close>, and \<^verbatim>\<open>lib/x\<close> without a manifest.
\<close>

definition app_tree :: node where
  "app_tree = Dir
     [(''lib'', Dir [(''x'', Dir [])]),
      (''app'', Dir
         [(''v2'', Dir [(''manifest.json'', File manifest_a)]),
          (''v1'', Dir [(''manifest.json'', File manifest_a)])])]"

section \<open>Vocabulary for the properties\<close>

text \<open>
  The name prefix and the image name that a route of an image was formatted with; the
  global fragment and the comment are not routes of an image.
\<close>

fun route_base :: "fragment \<Rightarrow> (string \<times> string) option" where
  "route_base (TagsList name name_prefix payload) = Some (name_prefix, name)"
| "route_base (ManifestTag name tag media_type name_prefix digest server_root) =
     Some (name_prefix, name)"
| "route_base (ManifestDigest name tag media_type name_prefix digest server_root) =
     Some (name_prefix, name)"
| "route_base (Blobs name_prefix server_root name paths) = Some (name_prefix, name)"
| "route_base Constants = None"
| "route_base (AlreadyServed name tag) = None"

text \<open>
  The text of a fragment is a \<^verbatim>\<open>location\<close> block whose path starts with \<open>p\<close>: an exact
  match without or with quotes, or a regular expression.
\<close>

definition rooted_at :: "string \<Rightarrow> fragment \<Rightarrow> bool" where
  \<open>rooted_at p f \<longleftrightarrow>
     prefix (''\<newline>location = '' @ p) (render f)
     \<or> prefix (''\<newline>location = "'' @ p) (render f)
     \<or> prefix (''\<newline>location ~ "'' @ p) (render f)\<close>

text \<open>The image a fragment belongs to; the global fragment belongs to none.\<close>

fun fragment_image :: "fragment \<Rightarrow> string option" where
  "fragment_image Constants = None"
| "fragment_image (TagsList name name_prefix payload) = Some name"
| "fragment_image (ManifestTag name tag media_type name_prefix digest server_root) = Some name"
| "fragment_image (ManifestDigest name tag media_type name_prefix digest server_root) = Some name"
| "fragment_image (AlreadyServed name tag) = Some name"
| "fragment_image (Blobs name_prefix server_root name paths) = Some name"

text \<open>The kinds of fragments.\<close>

fun is_manifest_tag :: "fragment \<Rightarrow> bool" where
  "is_manifest_tag (ManifestTag name tag media_type name_prefix digest server_root) = True"
| "is_manifest_tag _ = False"


fun is_blobs :: "fragment \<Rightarrow> bool" where
  "is_blobs (Blobs name_prefix server_root name paths) = True"
| "is_blobs _ = False"


text \<open>What one round of the loop over the images yields when no digest fails.\<close>

definition image_block :: "hash_fun \<Rightarrow> node \<Rightarrow> string \<Rightarrow> string \<Rightarrow> string \<times> tags \<Rightarrow> fragment list" where
  "image_block H later server_root name_prefix img =
     (case img of (name, tags) \<Rightarrow>
        TagsList name (lstrip CHR ''/'' name_prefix) (dumps_tag_list name (sort (map fst tags))) #
        fst (manifests_loop H later server_root name_prefix name {} (sort_key fst tags)) @
        [Blobs (lstrip CHR ''/'' name_prefix) server_root name
           (join '' '' (map (\<lambda>tag. tag @ ''/$1'') (sort (map fst tags))))])"

text \<open>
  How a manifest is served, in the words of the specification: from the directory of the
  tag, with the media type as default content type and the digest in a header, and with
  the global handler \<^verbatim>\<open>@404_tag\<close> for a missing file.
\<close>

definition serving_block :: "string \<Rightarrow> string \<Rightarrow> string \<Rightarrow> string \<Rightarrow> string \<Rightarrow> string" where
  \<open>serving_block server_root name tag media_type digest =
     ''    alias '' @ server_root @ ''/'' @ name @ ''/'' @ tag @ ''/;\<newline>'' @
     ''    types { } default_type "'' @ media_type @ ''";\<newline>'' @
     ''    add_header 'Docker-Content-Digest' 'sha256:'' @ digest @ [CHR 0x27] @ '';\<newline>'' @
     ''    try_files manifest.json =404;\<newline>'' @
     ''    error_page 404 @404_tag;\<newline>}\<newline>''\<close>

text \<open>The keys of a dict are distinct, and so are the keys of the dicts inside it.\<close>

definition images_ok :: "images \<Rightarrow> bool" where
  "images_ok imgs \<longleftrightarrow>
     distinct (map fst imgs) \<and> (\<forall>(name, tags) \<in> set imgs. distinct (map fst tags) \<and> tags \<noteq> [])"

text \<open>The digests of the manifests of the tags \<open>ts\<close> of the image \<open>name\<close>.\<close>

definition digests_of :: "hash_fun \<Rightarrow> node \<Rightarrow> string \<Rightarrow> tags \<Rightarrow> string set" where
  "digests_of H later name ts =
     {d. \<exists>t \<in> fst ` set ts. compute_digest H later [name, t, MANIFEST_JSON] = Inr d}"

text \<open>An image \<^verbatim>\<open>bar\<close> with one tag.\<close>

definition bar_tree :: node where
  "bar_tree = Dir [(''bar'', Dir [(''latest'', Dir [(''manifest.json'', File manifest_a)])])]"

text \<open>The tree of \<^verbatim>\<open>bar\<close> after the manifest has been removed.\<close>

definition vanished_tree :: node where
  "vanished_tree = Dir [(''bar'', Dir [(''latest'', Dir [])])]"

text \<open>
  Two images: \<^verbatim>\<open>bar\<close> with one tag, and \<^verbatim>\<open>app\<close> with three tags, listed in the order
  \<^verbatim>\<open>v2\<close>, \<^verbatim>\<open>v1\<close>, \<^verbatim>\<open>v3\<close>. All manifests are the same file but the one of \<^verbatim>\<open>v3\<close>.
\<close>

definition shared_tree :: node where
  "shared_tree = Dir
     [(''bar'', Dir [(''latest'', Dir [(''manifest.json'', File manifest_a)])]),
      (''app'', Dir
         [(''v2'', Dir [(''manifest.json'', File manifest_a)]),
          (''v1'', Dir [(''manifest.json'', File manifest_a)]),
          (''v3'', Dir [(''manifest.json'', File manifest_b)])])]"

definition digest_a :: string where
  "digest_a = ''0000000000000000000000000000000000000000000000000000000000000059''"

definition digest_b :: string where
  "digest_b = ''000000000000000000000000000000000000000000000000000000000000005a''"

text \<open>
  The same tree listed in another order. \<^verbatim>\<open>os.listdir\<close> is called on the root and on the
  directories in it, so these are the two levels whose order the generator can see; the
  names in a directory are distinct.
\<close>

fun same_entries :: "node \<Rightarrow> node \<Rightarrow> bool" where
  "same_entries (Dir ts) (Dir us) = (distinct (map fst ts) \<and> mset ts = mset us)"
| "same_entries a b = (a = b)"

fun relisted :: "node \<Rightarrow> node \<Rightarrow> bool" where
  "relisted (Dir es) (Dir fs) =
     (distinct (map fst es) \<and> mset (map fst es) = mset (map fst fs) \<and>
      list_all (\<lambda>name. case (map_of es name, map_of fs name) of
                          (Some a, Some b) \<Rightarrow> same_entries a b
                        | _ \<Rightarrow> False) (map fst es))"
| "relisted a b = (a = b)"

text \<open>The image names of the tag lists, and the tags of the routes by tag of an image.\<close>

fun tags_list_name :: "fragment \<Rightarrow> string list" where
  "tags_list_name (TagsList name name_prefix payload) = [name]"
| "tags_list_name _ = []"

fun manifest_tag_of :: "string \<Rightarrow> fragment \<Rightarrow> string list" where
  "manifest_tag_of n (ManifestTag name tag media_type name_prefix digest server_root) =
     (if name = n then [tag] else [])"
| "manifest_tag_of n _ = []"

text \<open>
  When discovery yields \<open>(name, tag, m)\<close>: both names are listed, the tag passes the checks
  with the media type \<open>m\<close>.
\<close>

definition discovered :: "loader \<Rightarrow> node \<Rightarrow> string \<Rightarrow> string \<Rightarrow> string \<Rightarrow> bool" where
  "discovered load root name tag m \<longleftrightarrow>
     (\<exists>names tags. listdir root [] = Inr names \<and> name \<in> set names \<and> isdir root [name]
        \<and> listdir root [name] = Inr tags \<and> tag \<in> set tags
        \<and> check_tag load root name tag = Inr (Some m))"

text \<open>When discovery raises: the root cannot be listed, or the checks of a listed tag raise.\<close>

definition discovery_raises :: "loader \<Rightarrow> node \<Rightarrow> bool" where
  "discovery_raises load root \<longleftrightarrow>
     (\<exists>e. listdir root [] = Inl e)
     \<or> (\<exists>names name tags tag e. listdir root [] = Inr names \<and> name \<in> set names
           \<and> isdir root [name] \<and> listdir root [name] = Inr tags \<and> tag \<in> set tags
           \<and> check_tag load root name tag = Inl e)"

text \<open>The tree \<open>app_tree\<close> as another listing order shows it.\<close>

definition app_tree_again :: node where
  "app_tree_again = Dir
     [(''app'', Dir
         [(''v1'', Dir [(''manifest.json'', File manifest_a)]),
          (''v2'', Dir [(''manifest.json'', File manifest_a)])]),
      (''lib'', Dir [(''x'', Dir [])])]"

text \<open>
  The image \<^verbatim>\<open>bar\<close> next to a directory \<^verbatim>\<open>app/v1\<close> whose \<^verbatim>\<open>manifest.json\<close> holds the JSON
  array \<^verbatim>\<open>[1]\<close>.
\<close>

definition array_tree :: node where
  "array_tree = Dir
     [(''bar'', Dir [(''latest'', Dir [(''manifest.json'', File manifest_a)])]),
      (''app'', Dir [(''v1'', Dir [(''manifest.json'', File manifest_array)])])]"

text \<open>The number that a string of lowercase hexadecimal digits denotes.\<close>

definition digit_value :: "char \<Rightarrow> nat" where
  "digit_value c = (if (of_char c :: nat) < 58 then of_char c - 48 else of_char c - 87)"

definition hex_value :: "string \<Rightarrow> nat" where
  "hex_value s = foldl (\<lambda>v c. 16 * v + digit_value c) 0 s"

text \<open>
  A manifest file of 5000 bytes, which is read in two chunks, and a hash function that
  depends on the first byte, the last byte and the length of what it is given.
\<close>

definition long_file :: bytes where
  "long_file = replicate 4096 0x61 @ replicate 904 0x62"

definition edge_hash :: hash_fun where
  "edge_hash content = (if content = [] then 0
     else of_nat (length content) + push_bit 16 (ucast (hd content))
        + push_bit 32 (ucast (last content)))"

definition long_tree :: node where
  "long_tree = Dir [(''app'', Dir [(''v1'', Dir [(''manifest.json'', File long_file)])])]"

section \<open>The loops without their local bindings\<close>

lemma manifests_loop_Cons:
  "manifests_loop H later sr np name seen ((tag, media_type) # rest) =
     (case compute_digest H later [name, tag, MANIFEST_JSON] of
        Inl e \<Rightarrow> ([], Some e)
      | Inr digest \<Rightarrow>
          (ManifestTag name tag media_type (lstrip CHR ''/'' np) digest sr #
           (if digest \<notin> seen
            then ManifestDigest name tag media_type (lstrip CHR ''/'' np) digest sr
            else AlreadyServed name tag) #
           fst (manifests_loop H later sr np name (insert digest seen) rest),
           snd (manifests_loop H later sr np name (insert digest seen) rest)))"
  by (simp split: sum.splits prod.splits)

lemma images_loop_Cons:
  "images_loop H later sr np ((name, tags) # rest) =
     (case manifests_loop H later sr np name {} (sort_key fst tags) of
        (routes, Some e) \<Rightarrow>
          (TagsList name (lstrip CHR ''/'' np) (dumps_tag_list name (sort (map fst tags))) # routes,
           Some e)
      | (routes, None) \<Rightarrow>
          (TagsList name (lstrip CHR ''/'' np) (dumps_tag_list name (sort (map fst tags))) #
           routes @
           Blobs (lstrip CHR ''/'' np) sr name
             (join '' '' (map (\<lambda>tag. tag @ ''/$1'') (sort (map fst tags)))) #
           fst (images_loop H later sr np rest),
           snd (images_loop H later sr np rest)))"
  by (simp add: Let_def split: prod.splits option.splits)

declare manifests_loop.simps(2) [simp del]
declare images_loop.simps(2) [simp del]

lemma create_config_only:
  "create_config load H root later sr np wc True = ((if wc then [Constants] else []), None)"
  by (simp add: create_config_def)

lemma create_config_scan:
  "create_config load H root later sr np wc False =
     (case find_images load root of
        Inl e \<Rightarrow> ((if wc then [Constants] else []), Some e)
      | Inr found \<Rightarrow>
          ((if wc then [Constants] else []) @
             fst (images_loop H later sr np (sort_key fst (foldl add_image [] found))),
           snd (images_loop H later sr np (sort_key fst (foldl add_image [] found)))))"
  by (simp add: create_config_def Let_def split: sum.splits prod.splits)

section \<open>Properties of the digest computation\<close>

declare read_chunks.simps [simp del]

lemma concat_read_chunks: "concat (read_chunks content) = content"
proof (induction content rule: read_chunks.induct)
  case (1 content)
  show ?case
  proof (cases "take 4096 content = []")
    case True
    then show ?thesis by (subst read_chunks.simps) (simp add: Let_def)
  next
    case False
    then have "concat (read_chunks (drop 4096 content)) = drop 4096 content"
      using "1.IH" by simp
    with False show ?thesis by (subst read_chunks.simps) (simp add: Let_def)
  qed
qed

lemma read_chunks_bounds:
  "chunk \<in> set (read_chunks content) \<Longrightarrow> chunk \<noteq> [] \<and> length chunk \<le> 4096"
proof (induction content rule: read_chunks.induct)
  case (1 content)
  show ?case
  proof (cases "take 4096 content = []")
    case True
    with "1.prems" show ?thesis by (subst (asm) read_chunks.simps) (simp add: Let_def)
  next
    case False
    from "1.prems" have "chunk = take 4096 content \<or> chunk \<in> set (read_chunks (drop 4096 content))"
      using False by (subst (asm) read_chunks.simps) (simp add: Let_def)
    then show ?thesis
    proof
      assume "chunk = take 4096 content"
      with False show ?thesis by simp
    next
      assume "chunk \<in> set (read_chunks (drop 4096 content))"
      with "1.IH" False show ?thesis by simp
    qed
  qed
qed

lemma read_chunks_full:
  "Suc i < length (read_chunks content) \<Longrightarrow> length (read_chunks content ! i) = 4096"
proof (induction content arbitrary: i rule: read_chunks.induct)
  case (1 content)
  show ?case
  proof (cases "take 4096 content = []")
    case True
    with "1.prems" show ?thesis by (subst (asm) read_chunks.simps) (simp add: Let_def)
  next
    case False
    have eq: "read_chunks content = take 4096 content # read_chunks (drop 4096 content)"
      using False by (subst read_chunks.simps) (simp add: Let_def)
    show ?thesis
    proof (cases i)
      case 0
      with "1.prems" eq have "read_chunks (drop 4096 content) \<noteq> []" by auto
      then have "drop 4096 content \<noteq> []"
        by (subst (asm) read_chunks.simps) (auto simp: Let_def)
      then have "4096 \<le> length content" by simp
      with 0 eq show ?thesis by simp
    next
      case (Suc j)
      with "1.prems" eq have "Suc j < length (read_chunks (drop 4096 content))" by simp
      with "1.IH" False have "length (read_chunks (drop 4096 content) ! j) = 4096" by simp
      with Suc eq show ?thesis by simp
    qed
  qed
qed

lemma foldl_sha256_update: "foldl sha256_update fed chunks = fed @ concat chunks"
  by (induction chunks arbitrary: fed) (simp_all add: sha256_update_def)

lemma hash_of_chunks: "foldl sha256_update sha256_new (read_chunks content) = content"
  by (simp add: foldl_sha256_update sha256_new_def concat_read_chunks)

lemma length_hexdigest: "length (hexdigest H fed) = 64"
  by (simp add: hexdigest_def)

lemma hex_digit_lowercase: "hex_digit n \<in> set ''0123456789abcdef''"
proof -
  have "n mod 16 < length ''0123456789abcdef''" by simp
  then show ?thesis unfolding hex_digit_def by (rule nth_mem)
qed

lemma hexdigest_lowercase: "set (hexdigest H fed) \<subseteq> set ''0123456789abcdef''"
  unfolding hexdigest_def using hex_digit_lowercase by (auto simp del: set_simps)

lemma compute_digest_read:
  "open_read root filename = Inr content \<Longrightarrow> compute_digest H root filename = Inr (hexdigest H content)"
  by (simp add: compute_digest_def hash_of_chunks)

lemma compute_digest_error:
  "open_read root filename = Inl e \<Longrightarrow> compute_digest H root filename = Inl e"
  by (simp add: compute_digest_def)

lemma digit_value_hex: "n < 16 \<Longrightarrow> digit_value (''0123456789abcdef'' ! n) = n"
proof -
  assume "n < 16"
  then consider "n = 0" | "n = 1" | "n = 2" | "n = 3" | "n = 4" | "n = 5" | "n = 6" | "n = 7"
    | "n = 8" | "n = 9" | "n = 10" | "n = 11" | "n = 12" | "n = 13" | "n = 14" | "n = 15"
    by atomize_elim arith
  then show ?thesis by cases (simp_all add: digit_value_def)
qed

lemma hex_value_snoc: "hex_value (s @ [c]) = 16 * hex_value s + digit_value c"
  by (simp add: hex_value_def)

lemma hex_value_digits:
  fixes w :: "256 word"
  shows "k \<le> 64 \<Longrightarrow>
    hex_value (map (\<lambda>i. ''0123456789abcdef'' ! (unat (drop_bit (4 * (63 - i)) w) mod 16)) [0..<k])
      = unat w div 2 ^ (4 * (64 - k))"
proof (induction k)
  case 0
  have "unat w < 2 ^ 256" using unsigned_less [of w] by simp
  then show ?case by (simp add: hex_value_def)
next
  case (Suc k)
  then have k: "k < 64" by simp
  let ?y = "unat w div 2 ^ (4 * (63 - k))"
  have e: "4 * (64 - k) = 4 * (63 - k) + 4" using k by simp
  have "unat w div 2 ^ (4 * (64 - k)) = ?y div 16"
    unfolding e power_add by (simp add: div_mult2_eq)
  moreover have "unat (drop_bit (4 * (63 - k)) w) = ?y"
    by (subst unat_drop_bit_eq) (simp add: drop_bit_eq_div)
  moreover have "digit_value (''0123456789abcdef'' ! (?y mod 16)) = ?y mod 16"
    by (rule digit_value_hex) simp
  ultimately show ?case
    using Suc.IH k by (simp add: hex_value_snoc del: nth.simps)
qed

lemma hexdigest_explicit:
  "hexdigest H fed
     = map (\<lambda>i. ''0123456789abcdef'' ! (unat (drop_bit (4 * (63 - i)) (H fed)) mod 16)) [0..<64]"
  by (simp add: hexdigest_def hex_digit_def)

lemma hex_value_hexdigest: "hex_value (hexdigest H fed) = unat (H fed)"
  unfolding hexdigest_explicit using hex_value_digits [of 64 "H fed"] by simp

lemma read_chunks_long_file:
  "read_chunks long_file = [replicate 4096 0x61, replicate 904 0x62]"
proof -
  have "read_chunks (replicate 4096 (0x61 :: byte) @ replicate 904 0x62)
      = replicate 4096 0x61 # read_chunks (replicate 904 0x62)"
    by (subst read_chunks.simps) (simp add: Let_def)
  also have "read_chunks (replicate 904 (0x62 :: byte)) = replicate 904 0x62 # read_chunks []"
    by (subst read_chunks.simps) (simp add: Let_def)
  also have "read_chunks ([] :: bytes) = []"
    by (subst read_chunks.simps) simp
  finally show ?thesis by (simp add: long_file_def)
qed

lemma long_file_ne: "long_file \<noteq> []"
  unfolding long_file_def by simp

lemma long_file_hd: "hd long_file = 0x61"
  unfolding long_file_def by (simp add: hd_append)

lemma long_file_last: "last long_file = 0x62"
  unfolding long_file_def by (simp add: last_append)

lemma long_file_len: "length long_file = 5000"
  unfolding long_file_def by simp

lemma edge_hash_long_file: "edge_hash long_file = 0x006200611388"
  unfolding edge_hash_def long_file_hd long_file_last long_file_len using long_file_ne by simp

lemma hex_digits_nat:
  "map (\<lambda>i. ''0123456789abcdef'' ! (unat (drop_bit (4 * (63 - i)) w) mod 16)) [0..<64]
     = map (\<lambda>i. ''0123456789abcdef'' ! (unat w div 2 ^ (4 * (63 - i)) mod 16)) [0..<64]"
  unfolding unat_drop_bit_eq unfolding drop_bit_eq_div ..

lemma unat_edge_hash_long_file: "unat (0x006200611388 :: 256 word) = 0x006200611388"
  by simp

lemma hex_digits_long_file:
  "map (\<lambda>i. ''0123456789abcdef'' ! ((0x006200611388 :: nat) div 2 ^ (4 * (63 - i)) mod 16))
       [0..<64]
     = ''0000000000000000000000000000000000000000000000000000006200611388''"
  by (simp add: upt_conv_Cons)

lemma hexdigest_long_file:
  "map (\<lambda>i. ''0123456789abcdef'' !
          (unat (drop_bit (4 * (63 - i)) (0x006200611388 :: 256 word)) mod 16)) [0..<64]
     = ''0000000000000000000000000000000000000000000000000000006200611388''"
  unfolding hex_digits_nat unat_edge_hash_long_file by (rule hex_digits_long_file)

section \<open>Properties of the name prefix\<close>

lemma manifests_loop_lstrip:
  "lstrip CHR ''/'' p = lstrip CHR ''/'' q \<Longrightarrow>
   manifests_loop H later sr p name seen tags = manifests_loop H later sr q name seen tags"
proof (induction tags arbitrary: seen)
  case Nil
  show ?case by simp
next
  case (Cons t tags)
  obtain tag m where t: "t = (tag, m)" by (cases t)
  show ?case
    unfolding t manifests_loop_Cons using Cons by (simp split: sum.splits)
qed

lemma images_loop_lstrip:
  "lstrip CHR ''/'' p = lstrip CHR ''/'' q \<Longrightarrow>
   images_loop H later sr p imgs = images_loop H later sr q imgs"
proof (induction imgs)
  case Nil
  show ?case by simp
next
  case (Cons img imgs)
  obtain name tags where img: "img = (name, tags)" by (cases img)
  have m: "manifests_loop H later sr p name {} (sort_key fst tags)
         = manifests_loop H later sr q name {} (sort_key fst tags)"
    using Cons.prems by (rule manifests_loop_lstrip)
  show ?case
    unfolding img images_loop_Cons using Cons m by simp
qed

lemma create_config_lstrip:
  assumes "lstrip CHR ''/'' p = lstrip CHR ''/'' q"
  shows "create_config load H root later sr p wc oc = create_config load H root later sr q wc oc"
proof (cases oc)
  case True
  then show ?thesis by (simp add: create_config_only)
next
  case False
  have "\<And>imgs. images_loop H later sr p imgs = images_loop H later sr q imgs"
    using assms by (rule images_loop_lstrip)
  with False show ?thesis by (simp only: create_config_scan)
qed

lemma route_base_rooted:
  "route_base f = Some (p, n) \<Longrightarrow> rooted_at (''/v2/'' @ p @ n @ ''/'') f"
  by (cases f)
     (auto simp: rooted_at_def prefix_def tags_list_location_def manifest_tag_location_def
        manifest_digest_location_def blobs_location_def)

lemma manifests_loop_base:
  "f \<in> set (fst (manifests_loop H later sr np name seen tags)) \<Longrightarrow> route_base f = Some (p, n)
   \<Longrightarrow> p = lstrip CHR ''/'' np \<and> n = name"
proof (induction tags arbitrary: seen)
  case Nil
  then show ?case by simp
next
  case (Cons t tags)
  obtain tag m where t: "t = (tag, m)" by (cases t)
  show ?case
  proof (cases "compute_digest H later [name, tag, MANIFEST_JSON]")
    case (Inl e)
    with Cons.prems show ?thesis by (simp add: t manifests_loop_Cons)
  next
    case (Inr d)
    with Cons.prems(1)
    have "f = ManifestTag name tag m (lstrip CHR ''/'' np) d sr
        \<or> f = ManifestDigest name tag m (lstrip CHR ''/'' np) d sr
        \<or> f = AlreadyServed name tag
        \<or> f \<in> set (fst (manifests_loop H later sr np name (insert d seen) tags))"
      by (auto simp: t manifests_loop_Cons split: if_splits)
    then show ?thesis
      using Cons.prems(2) Cons.IH [of "insert d seen"] by auto
  qed
qed

lemma images_loop_base:
  "f \<in> set (fst (images_loop H later sr np imgs)) \<Longrightarrow> route_base f = Some (p, n)
   \<Longrightarrow> p = lstrip CHR ''/'' np \<and> n \<in> fst ` set imgs"
proof (induction imgs)
  case Nil
  then show ?case by simp
next
  case (Cons img imgs)
  obtain name tags where img: "img = (name, tags)" by (cases img)
  obtain routes err where m: "manifests_loop H later sr np name {} (sort_key fst tags) = (routes, err)"
    by (cases "manifests_loop H later sr np name {} (sort_key fst tags)")
  from Cons.prems(1) have "f = TagsList name (lstrip CHR ''/'' np) (dumps_tag_list name (sort (map fst tags)))
      \<or> f \<in> set routes
      \<or> f = Blobs (lstrip CHR ''/'' np) sr name (join '' '' (map (\<lambda>tag. tag @ ''/$1'') (sort (map fst tags))))
      \<or> f \<in> set (fst (images_loop H later sr np imgs))"
    unfolding img images_loop_Cons m by (cases err) auto
  then show ?case
  proof (elim disjE)
    assume "f \<in> set routes"
    then have "f \<in> set (fst (manifests_loop H later sr np name {} (sort_key fst tags)))"
      by (simp add: m)
    from manifests_loop_base [OF this Cons.prems(2)] show ?thesis by (simp add: img)
  next
    assume "f \<in> set (fst (images_loop H later sr np imgs))"
    from Cons.IH [OF this Cons.prems(2)] show ?thesis by simp
  qed (use Cons.prems(2) in \<open>auto simp: img\<close>)
qed

lemma create_config_base:
  assumes "f \<in> set (fst (create_config load H root later sr np wc oc))"
    and "route_base f = Some (p, n)"
  shows "p = lstrip CHR ''/'' np"
proof (cases oc)
  case True
  with assms show ?thesis by (auto simp: create_config_only split: if_splits)
next
  case False
  show ?thesis
  proof (cases "find_images load root")
    case (Inl e)
    with assms False show ?thesis by (auto simp: create_config_scan split: if_splits)
  next
    case (Inr found)
    from assms False Inr
    have "f \<in> set (fst (images_loop H later sr np (sort_key fst (foldl add_image [] found))))"
      by (auto simp: create_config_scan split: if_splits)
    from images_loop_base [OF this assms(2)] show ?thesis by simp
  qed
qed





section \<open>The examples, evaluated\<close>

lemma example_load_a [simp]:
  "example_load manifest_a =
     Loaded (JObject [(''schemaVersion'', JInt 2), (''mediaType'', JString docker_v2)])"
  by (simp add: example_load_def)

lemma check_data_docker [simp]:
  "check_data (JObject [(''schemaVersion'', JInt 2), (''mediaType'', JString docker_v2)])
     = Inr (Some docker_v2)"
  by (simp add: check_data_def media_types_def docker_v2_def)

lemma find_images_bar_tree:
  "find_images example_load bar_tree = Inr [(''bar'', ''latest'', docker_v2)]"
  by (simp add: find_images_def listdir_def isdir_def isfile_def open_read_def check_tag_def
        bar_tree_def MANIFEST_JSON_def)

lemma digest_bar_tree:
  "compute_digest H bar_tree [''bar'', ''latest'', MANIFEST_JSON] = Inr (hexdigest H manifest_a)"
  by (rule compute_digest_read) (simp add: open_read_def bar_tree_def MANIFEST_JSON_def)

lemma create_config_bar_tree:
  "create_config example_load H bar_tree bar_tree sr np False False =
     ([TagsList ''bar'' (lstrip CHR ''/'' np) (dumps_tag_list ''bar'' [''latest'']),
       ManifestTag ''bar'' ''latest'' docker_v2 (lstrip CHR ''/'' np) (hexdigest H manifest_a) sr,
       ManifestDigest ''bar'' ''latest'' docker_v2 (lstrip CHR ''/'' np) (hexdigest H manifest_a) sr,
       Blobs (lstrip CHR ''/'' np) sr ''bar'' ''latest/$1''], None)"
  by (simp add: create_config_scan find_images_bar_tree add_image_def images_loop_Cons
        manifests_loop_Cons digest_bar_tree)

section \<open>The fragments of the images\<close>

lemma manifests_loop_no_constants:
  "Constants \<in> set (fst (manifests_loop H later sr np name seen tags)) \<Longrightarrow> False"
proof (induction tags arbitrary: seen)
  case Nil
  then show ?case by simp
next
  case (Cons t tags)
  obtain tag m where t: "t = (tag, m)" by (cases t)
  show ?case
  proof (cases "compute_digest H later [name, tag, MANIFEST_JSON]")
    case (Inl e)
    with Cons.prems show ?thesis by (simp add: t manifests_loop_Cons)
  next
    case (Inr d)
    with Cons.prems
    have "Constants \<in> set (fst (manifests_loop H later sr np name (insert d seen) tags))"
      by (simp add: t manifests_loop_Cons split: if_splits)
    then show ?thesis by (rule Cons.IH)
  qed
qed

lemma images_loop_no_constants:
  "Constants \<in> set (fst (images_loop H later sr np imgs)) \<Longrightarrow> False"
proof (induction imgs)
  case Nil
  then show ?case by simp
next
  case (Cons img imgs)
  obtain name tags where img: "img = (name, tags)" by (cases img)
  obtain routes err where m: "manifests_loop H later sr np name {} (sort_key fst tags) = (routes, err)"
    by (cases "manifests_loop H later sr np name {} (sort_key fst tags)")
  from Cons.prems have "Constants \<in> set routes
      \<or> Constants \<in> set (fst (images_loop H later sr np imgs))"
    unfolding img images_loop_Cons m by (cases err) auto
  then show ?case
  proof
    assume "Constants \<in> set routes"
    then have "Constants \<in> set (fst (manifests_loop H later sr np name {} (sort_key fst tags)))"
      by (simp add: m)
    then show False by (rule manifests_loop_no_constants)
  next
    assume "Constants \<in> set (fst (images_loop H later sr np imgs))"
    then show False by (rule Cons.IH)
  qed
qed

section \<open>The dict of images\<close>

lemma set_update_subset: "set (AList.update k v al) \<subseteq> insert (k, v) (set al)"
  by (induction al) auto

lemma update_mem: "(k, v) \<in> set (AList.update k v al)"
  by (induction al) auto

lemma update_other: "k' \<noteq> k \<Longrightarrow> (k', v') \<in> set al \<Longrightarrow> (k', v') \<in> set (AList.update k v al)"
  by (induction al) auto

lemma images_ok_add: "images_ok imgs \<Longrightarrow> images_ok (add_image imgs t)"
proof -
  assume ok: "images_ok imgs"
  obtain name tag m where t: "t = (name, tag, m)" by (cases t)
  define old where "old = (case map_of imgs name of None \<Rightarrow> [] | Some tags \<Rightarrow> tags)"
  have d: "distinct (map fst old)"
  proof (cases "map_of imgs name")
    case None
    then show ?thesis by (simp add: old_def)
  next
    case (Some tags)
    then have "(name, tags) \<in> set imgs" by (rule map_of_SomeD)
    with ok Some show ?thesis by (auto simp: images_ok_def old_def)
  qed
  have new: "distinct (map fst (AList.update tag m old)) \<and> AList.update tag m old \<noteq> []"
    using d update_mem [of tag m old] by (auto simp: distinct_update)
  have eq: "add_image imgs t = AList.update name (AList.update tag m old) imgs"
    by (simp add: add_image_def t old_def)
  have "distinct (map fst (add_image imgs t))"
    using ok by (simp add: eq images_ok_def distinct_update)
  moreover have "distinct (map fst tags) \<and> tags \<noteq> []" if "(n, tags) \<in> set (add_image imgs t)" for n tags
  proof -
    from that set_update_subset [of name "AList.update tag m old" imgs]
    have "(n, tags) = (name, AList.update tag m old) \<or> (n, tags) \<in> set imgs"
      by (auto simp: eq)
    with new ok show ?thesis by (auto simp: images_ok_def)
  qed
  ultimately show ?thesis by (auto simp: images_ok_def)
qed

lemma images_ok_foldl: "images_ok imgs \<Longrightarrow> images_ok (foldl add_image imgs found)"
  by (induction found arbitrary: imgs) (simp_all add: images_ok_add)

lemma images_ok_found: "images_ok (foldl add_image [] found)"
  by (rule images_ok_foldl) (simp add: images_ok_def)

lemma distinct_sort_key_fst: "distinct (map fst (sort_key fst xs)) = distinct (map fst xs)"
proof -
  have "mset (map fst (sort_key fst xs)) = mset (map fst xs)" by simp
  then show ?thesis by (rule mset_eq_imp_distinct_iff)
qed

section \<open>The run as a sequence of blocks\<close>

lemma manifests_loop_image:
  "f \<in> set (fst (manifests_loop H later sr np name seen tags)) \<Longrightarrow> fragment_image f = Some name"
proof (induction tags arbitrary: seen)
  case Nil
  then show ?case by simp
next
  case (Cons t tags)
  obtain tag m where t: "t = (tag, m)" by (cases t)
  show ?case
  proof (cases "compute_digest H later [name, tag, MANIFEST_JSON]")
    case (Inl e)
    with Cons.prems show ?thesis by (simp add: t manifests_loop_Cons)
  next
    case (Inr d)
    with Cons.prems
    have "f = ManifestTag name tag m (lstrip CHR ''/'' np) d sr
        \<or> f = ManifestDigest name tag m (lstrip CHR ''/'' np) d sr
        \<or> f = AlreadyServed name tag
        \<or> f \<in> set (fst (manifests_loop H later sr np name (insert d seen) tags))"
      by (auto simp: t manifests_loop_Cons split: if_splits)
    then show ?thesis
      using Cons.IH [of "insert d seen"] by auto
  qed
qed

lemma image_block_image:
  "f \<in> set (image_block H later sr np (name, tags)) \<Longrightarrow> fragment_image f = Some name"
  by (auto simp: image_block_def dest: manifests_loop_image)

lemma images_loop_blocks:
  "snd (images_loop H later sr np imgs) = None \<Longrightarrow>
     fst (images_loop H later sr np imgs) = concat (map (image_block H later sr np) imgs)
     \<and> (\<forall>(name, tags) \<in> set imgs.
           snd (manifests_loop H later sr np name {} (sort_key fst tags)) = None)"
proof (induction imgs)
  case Nil
  show ?case by simp
next
  case (Cons img imgs)
  obtain name tags where img: "img = (name, tags)" by (cases img)
  obtain routes err where m: "manifests_loop H later sr np name {} (sort_key fst tags) = (routes, err)"
    by (cases "manifests_loop H later sr np name {} (sort_key fst tags)")
  from Cons.prems have err: "err = None"
    unfolding img images_loop_Cons m by (cases err) simp_all
  from Cons.prems have rest: "snd (images_loop H later sr np imgs) = None"
    unfolding img images_loop_Cons m err by simp
  have "fst (images_loop H later sr np (img # imgs))
      = image_block H later sr np img @ fst (images_loop H later sr np imgs)"
    unfolding img images_loop_Cons m err by (simp add: image_block_def m)
  with Cons.IH [OF rest] show ?case
    by (simp add: img m err)
qed

lemma filter_blocks:
  "distinct (map fst imgs) \<Longrightarrow> (name, tags) \<in> set imgs \<Longrightarrow>
     filter (\<lambda>f. fragment_image f = Some name) (concat (map (image_block H later sr np) imgs))
       = image_block H later sr np (name, tags)"
proof (induction imgs)
  case Nil
  then show ?case by simp
next
  case (Cons img imgs)
  obtain n tg where img: "img = (n, tg)" by (cases img)
  have none: "filter (\<lambda>f. fragment_image f = Some name) (concat (map (image_block H later sr np) xs)) = []"
    if "name \<notin> fst ` set xs" for xs
    using that by (induction xs) (auto simp: filter_empty_conv dest!: image_block_image)
  show ?case
  proof (cases "n = name")
    case True
    with Cons.prems img have tg: "tg = tags" and nin: "name \<notin> fst ` set imgs"
      by (auto simp: rev_image_eqI)
    have "filter (\<lambda>f. fragment_image f = Some name) (image_block H later sr np (name, tags))
        = image_block H later sr np (name, tags)"
      by (simp add: image_block_image)
    with none [OF nin] show ?thesis by (simp add: img True tg)
  next
    case False
    with Cons.prems img have mem: "(name, tags) \<in> set imgs" and d: "distinct (map fst imgs)"
      by auto
    have "filter (\<lambda>f. fragment_image f = Some name) (image_block H later sr np (n, tg)) = []"
      using False by (auto simp: filter_empty_conv dest!: image_block_image)
    with Cons.IH [OF d mem] show ?thesis by (simp add: img)
  qed
qed

lemma run_image_fragments:
  assumes run: "create_config load H root later sr np wc False = (frs, None)"
    and found: "find_images load root = Inr found"
    and img: "(name, tags) \<in> set (foldl add_image [] found)"
  shows "filter (\<lambda>f. fragment_image f = Some name) frs = image_block H later sr np (name, tags)"
    and "snd (manifests_loop H later sr np name {} (sort_key fst tags)) = None"
proof -
  let ?imgs = "sort_key fst (foldl add_image [] found)"
  from run found have frs: "frs = (if wc then [Constants] else []) @ fst (images_loop H later sr np ?imgs)"
    and ok: "snd (images_loop H later sr np ?imgs) = None"
    by (simp_all add: create_config_scan)
  from img have mem: "(name, tags) \<in> set ?imgs" by simp
  have d: "distinct (map fst ?imgs)"
    using images_ok_found [of found] by (simp add: distinct_sort_key_fst images_ok_def)
  from images_loop_blocks [OF ok] mem
  have blocks: "fst (images_loop H later sr np ?imgs) = concat (map (image_block H later sr np) ?imgs)"
    and m: "snd (manifests_loop H later sr np name {} (sort_key fst tags)) = None"
    by auto
  show "filter (\<lambda>f. fragment_image f = Some name) frs = image_block H later sr np (name, tags)"
    unfolding frs blocks using filter_blocks [OF d mem] by simp
  show "snd (manifests_loop H later sr np name {} (sort_key fst tags)) = None" by (rule m)
qed

section \<open>The loop over the tags of an image\<close>

lemma manifests_loop_step:
  assumes "compute_digest H later [name, tag, MANIFEST_JSON] = Inr d"
  shows "manifests_loop H later sr np name seen ((tag, m) # rest) =
     (ManifestTag name tag m (lstrip CHR ''/'' np) d sr #
      (if d \<notin> seen then ManifestDigest name tag m (lstrip CHR ''/'' np) d sr
       else AlreadyServed name tag) #
      fst (manifests_loop H later sr np name (insert d seen) rest),
      snd (manifests_loop H later sr np name (insert d seen) rest))"
  using assms by (simp add: manifests_loop_Cons)

lemma manifests_loop_stop:
  assumes "compute_digest H later [name, tag, MANIFEST_JSON] = Inl e"
  shows "manifests_loop H later sr np name seen ((tag, m) # rest) = ([], Some e)"
  using assms by (simp add: manifests_loop_Cons)

lemma manifests_loop_head_ok:
  assumes "snd (manifests_loop H later sr np name seen ((tag, m) # rest)) = None"
  obtains d where "compute_digest H later [name, tag, MANIFEST_JSON] = Inr d"
    and "snd (manifests_loop H later sr np name (insert d seen) rest) = None"
proof (cases "compute_digest H later [name, tag, MANIFEST_JSON]")
  case (Inl e)
  with assms show ?thesis by (simp add: manifests_loop_stop)
next
  case (Inr d)
  with assms that show ?thesis by (simp add: manifests_loop_step)
qed

lemma manifests_loop_tag_route:
  "ManifestTag n t m p d s \<in> set (fst (manifests_loop H later sr np name seen tags)) \<Longrightarrow>
     n = name \<and> (t, m) \<in> set tags \<and> p = lstrip CHR ''/'' np \<and> s = sr
     \<and> compute_digest H later [name, t, MANIFEST_JSON] = Inr d"
proof (induction tags arbitrary: seen)
  case Nil
  then show ?case by simp
next
  case (Cons x tags)
  obtain tag mt where x: "x = (tag, mt)" by (cases x)
  show ?case
  proof (cases "compute_digest H later [name, tag, MANIFEST_JSON]")
    case (Inl e)
    with Cons.prems show ?thesis by (simp add: x manifests_loop_stop)
  next
    case (Inr d')
    from Cons.prems have "ManifestTag n t m p d s = ManifestTag name tag mt (lstrip CHR ''/'' np) d' sr
        \<or> ManifestTag n t m p d s \<in> set (fst (manifests_loop H later sr np name (insert d' seen) tags))"
      by (auto simp: x manifests_loop_step [OF Inr] split: if_splits)
    then show ?thesis
      using Inr Cons.IH [of "insert d' seen"] by (auto simp: x)
  qed
qed

lemma manifests_loop_digest_route:
  "ManifestDigest n t m p d s \<in> set (fst (manifests_loop H later sr np name seen tags)) \<Longrightarrow>
     d \<notin> seen \<and> (t, m) \<in> set tags
     \<and> ManifestTag n t m p d s \<in> set (fst (manifests_loop H later sr np name seen tags))"
proof (induction tags arbitrary: seen)
  case Nil
  then show ?case by simp
next
  case (Cons x tags)
  obtain tag mt where x: "x = (tag, mt)" by (cases x)
  show ?case
  proof (cases "compute_digest H later [name, tag, MANIFEST_JSON]")
    case (Inl e)
    with Cons.prems show ?thesis by (simp add: x manifests_loop_stop)
  next
    case (Inr d')
    from Cons.prems have "(d' \<notin> seen \<and>
          ManifestDigest n t m p d s = ManifestDigest name tag mt (lstrip CHR ''/'' np) d' sr)
        \<or> ManifestDigest n t m p d s \<in> set (fst (manifests_loop H later sr np name (insert d' seen) tags))"
      by (auto simp: x manifests_loop_step [OF Inr] split: if_splits)
    then show ?thesis
      using Cons.IH [of "insert d' seen"] by (auto simp: x manifests_loop_step [OF Inr])
  qed
qed


lemma manifests_loop_no_blobs:
  "f \<in> set (fst (manifests_loop H later sr np name seen tags)) \<Longrightarrow>
     \<not> is_blobs f \<and> f \<noteq> Constants \<and> (\<forall>n p payload. f \<noteq> TagsList n p payload)"
proof (induction tags arbitrary: seen)
  case Nil
  then show ?case by simp
next
  case (Cons x tags)
  obtain tag mt where x: "x = (tag, mt)" by (cases x)
  show ?case
  proof (cases "compute_digest H later [name, tag, MANIFEST_JSON]")
    case (Inl e)
    with Cons.prems show ?thesis by (simp add: x manifests_loop_stop)
  next
    case (Inr d')
    from Cons.prems have "f = ManifestTag name tag mt (lstrip CHR ''/'' np) d' sr
        \<or> f = ManifestDigest name tag mt (lstrip CHR ''/'' np) d' sr
        \<or> f = AlreadyServed name tag
        \<or> f \<in> set (fst (manifests_loop H later sr np name (insert d' seen) tags))"
      by (auto simp: x manifests_loop_step [OF Inr] split: if_splits)
    then show ?thesis
      using Cons.IH [of "insert d' seen"] by auto
  qed
qed

lemma manifests_loop_all_digests:
  "snd (manifests_loop H later sr np name seen tags) = None \<Longrightarrow> (t, m) \<in> set tags \<Longrightarrow>
     \<exists>d. compute_digest H later [name, t, MANIFEST_JSON] = Inr d"
proof (induction tags arbitrary: seen)
  case Nil
  then show ?case by simp
next
  case (Cons x tags)
  obtain tag mt where x: "x = (tag, mt)" by (cases x)
  from Cons.prems(1) obtain d where d: "compute_digest H later [name, tag, MANIFEST_JSON] = Inr d"
    and rest: "snd (manifests_loop H later sr np name (insert d seen) tags) = None"
    unfolding x by (rule manifests_loop_head_ok)
  from Cons.prems(2) have "(t, m) = (tag, mt) \<or> (t, m) \<in> set tags" by (simp add: x)
  then show ?case
    using d Cons.IH [OF rest] by auto
qed

lemma manifests_loop_length:
  "snd (manifests_loop H later sr np name seen tags) = None \<Longrightarrow>
     length (fst (manifests_loop H later sr np name seen tags)) = 2 * length tags
     \<and> length (filter is_manifest_tag (fst (manifests_loop H later sr np name seen tags)))
         = length tags"
proof (induction tags arbitrary: seen)
  case Nil
  then show ?case by simp
next
  case (Cons x tags)
  obtain tag mt where x: "x = (tag, mt)" by (cases x)
  from Cons.prems(1) obtain d where d: "compute_digest H later [name, tag, MANIFEST_JSON] = Inr d"
    and rest: "snd (manifests_loop H later sr np name (insert d seen) tags) = None"
    unfolding x by (rule manifests_loop_head_ok)
  from Cons.IH [OF rest] show ?case
    by (simp add: x manifests_loop_step [OF d])
qed

lemma digests_of_Cons:
  "compute_digest H later [name, tag, MANIFEST_JSON] = Inr d \<Longrightarrow>
     digests_of H later name ((tag, m) # rest) = insert d (digests_of H later name rest)"
  by (auto simp: digests_of_def)

lemma digests_of_Nil: "digests_of H later name [] = {}"
  by (simp add: digests_of_def)

lemma manifests_loop_split:
  "snd (manifests_loop H later sr np name seen (before @ (tag, m) # after)) = None \<Longrightarrow>
     \<exists>d. compute_digest H later [name, tag, MANIFEST_JSON] = Inr d
       \<and> fst (manifests_loop H later sr np name seen (before @ (tag, m) # after))
           = fst (manifests_loop H later sr np name seen before) @
             ManifestTag name tag m (lstrip CHR ''/'' np) d sr #
             (if d \<notin> seen \<union> digests_of H later name before
              then ManifestDigest name tag m (lstrip CHR ''/'' np) d sr
              else AlreadyServed name tag) #
             fst (manifests_loop H later sr np name
                    (insert d (seen \<union> digests_of H later name before)) after)"
proof (induction before arbitrary: seen)
  case Nil
  from Nil obtain d where d: "compute_digest H later [name, tag, MANIFEST_JSON] = Inr d"
    by (auto elim: manifests_loop_head_ok)
  then show ?case
    by (simp add: manifests_loop_step [OF d] digests_of_Nil)
next
  case (Cons x before)
  obtain t0 m0 where x: "x = (t0, m0)" by (cases x)
  from Cons.prems obtain d0 where d0: "compute_digest H later [name, t0, MANIFEST_JSON] = Inr d0"
    and rest: "snd (manifests_loop H later sr np name (insert d0 seen) (before @ (tag, m) # after)) = None"
    unfolding x append_Cons by (rule manifests_loop_head_ok)
  have u: "insert d0 seen \<union> digests_of H later name before
         = seen \<union> digests_of H later name ((t0, m0) # before)"
    by (simp add: digests_of_Cons [OF d0])
  from Cons.IH [OF rest] obtain d where d: "compute_digest H later [name, tag, MANIFEST_JSON] = Inr d"
    and eq: "fst (manifests_loop H later sr np name (insert d0 seen) (before @ (tag, m) # after))
           = fst (manifests_loop H later sr np name (insert d0 seen) before) @
             ManifestTag name tag m (lstrip CHR ''/'' np) d sr #
             (if d \<notin> insert d0 seen \<union> digests_of H later name before
              then ManifestDigest name tag m (lstrip CHR ''/'' np) d sr
              else AlreadyServed name tag) #
             fst (manifests_loop H later sr np name
                    (insert d (insert d0 seen \<union> digests_of H later name before)) after)"
    by blast
  note eq' = eq [unfolded u]
  have "fst (manifests_loop H later sr np name seen ((t0, m0) # before @ (tag, m) # after))
           = fst (manifests_loop H later sr np name seen ((t0, m0) # before)) @
             ManifestTag name tag m (lstrip CHR ''/'' np) d sr #
             (if d \<notin> seen \<union> digests_of H later name ((t0, m0) # before)
              then ManifestDigest name tag m (lstrip CHR ''/'' np) d sr
              else AlreadyServed name tag) #
             fst (manifests_loop H later sr np name
                    (insert d (seen \<union> digests_of H later name ((t0, m0) # before))) after)"
    unfolding manifests_loop_step [OF d0] fst_conv eq' by (simp only: append_Cons)
  with d show ?case
    unfolding x append_Cons by blast
qed


section \<open>The routes of a run\<close>

lemma images_loop_mem:
  "f \<in> set (fst (images_loop H later sr np imgs)) \<Longrightarrow>
     \<exists>name tags. (name, tags) \<in> set imgs \<and>
       (f = TagsList name (lstrip CHR ''/'' np) (dumps_tag_list name (sort (map fst tags)))
        \<or> (f \<in> set (fst (manifests_loop H later sr np name {} (sort_key fst tags)))
            \<and> set (fst (manifests_loop H later sr np name {} (sort_key fst tags)))
                \<subseteq> set (fst (images_loop H later sr np imgs)))
        \<or> f = Blobs (lstrip CHR ''/'' np) sr name
                 (join '' '' (map (\<lambda>tag. tag @ ''/$1'') (sort (map fst tags)))))"
proof (induction imgs)
  case Nil
  then show ?case by simp
next
  case (Cons img imgs)
  obtain name tags where img: "img = (name, tags)" by (cases img)
  obtain routes err where m: "manifests_loop H later sr np name {} (sort_key fst tags) = (routes, err)"
    by (cases "manifests_loop H later sr np name {} (sort_key fst tags)")
  have sub: "set routes \<subseteq> set (fst (images_loop H later sr np (img # imgs)))"
    unfolding img images_loop_Cons m by (cases err) auto
  have tail: "set (fst (images_loop H later sr np imgs))
      \<subseteq> set (fst (images_loop H later sr np (img # imgs)))" if "err = None"
    unfolding img images_loop_Cons m that by auto
  from Cons.prems have "f = TagsList name (lstrip CHR ''/'' np) (dumps_tag_list name (sort (map fst tags)))
      \<or> f \<in> set routes
      \<or> f = Blobs (lstrip CHR ''/'' np) sr name (join '' '' (map (\<lambda>tag. tag @ ''/$1'') (sort (map fst tags))))
      \<or> (err = None \<and> f \<in> set (fst (images_loop H later sr np imgs)))"
    unfolding img images_loop_Cons m by (cases err) auto
  then show ?case
  proof (elim disjE conjE)
    assume e: "err = None" and "f \<in> set (fst (images_loop H later sr np imgs))"
    from Cons.IH [OF this(2)] tail [OF e] show ?thesis by (simp only: set_simps) blast
  next
    assume "f \<in> set routes"
    with sub have "f \<in> set (fst (manifests_loop H later sr np name {} (sort_key fst tags)))
        \<and> set (fst (manifests_loop H later sr np name {} (sort_key fst tags)))
            \<subseteq> set (fst (images_loop H later sr np (img # imgs)))"
      by (simp add: m)
    then show ?thesis unfolding img by (intro exI [of _ name] exI [of _ tags]) simp
  qed (auto simp: img)
qed

lemma create_config_mem:
  assumes "f \<in> set (fst (create_config load H root later sr np wc oc))" and "f \<noteq> Constants"
  shows "\<not> oc \<and> (\<exists>found. find_images load root = Inr found
     \<and> f \<in> set (fst (images_loop H later sr np (sort_key fst (foldl add_image [] found)))))"
proof (cases oc)
  case True
  with assms show ?thesis by (auto simp: create_config_only split: if_splits)
next
  case False
  show ?thesis
  proof (cases "find_images load root")
    case (Inl e)
    with assms False show ?thesis by (auto simp: create_config_scan split: if_splits)
  next
    case (Inr found)
    with assms False show ?thesis by (auto simp: create_config_scan split: if_splits)
  qed
qed

lemma add_image_sound:
  assumes "(n, tags) \<in> set (add_image imgs x)" and "(t, m) \<in> set tags"
  shows "x = (n, t, m) \<or> (\<exists>tags0. (n, tags0) \<in> set imgs \<and> (t, m) \<in> set tags0)"
proof -
  obtain name tag mt where x: "x = (name, tag, mt)" by (cases x)
  define old where "old = (case map_of imgs name of None \<Rightarrow> [] | Some tags \<Rightarrow> tags)"
  have eq: "add_image imgs x = AList.update name (AList.update tag mt old) imgs"
    by (simp add: add_image_def x old_def)
  from assms(1) set_update_subset [of name "AList.update tag mt old" imgs]
  have "(n, tags) = (name, AList.update tag mt old) \<or> (n, tags) \<in> set imgs"
    by (auto simp: eq)
  then show ?thesis
  proof
    assume "(n, tags) \<in> set imgs"
    with assms(2) show ?thesis by blast
  next
    assume a: "(n, tags) = (name, AList.update tag mt old)"
    with assms(2) set_update_subset [of tag mt old]
    have "(t, m) = (tag, mt) \<or> (t, m) \<in> set old" by auto
    then show ?thesis
    proof
      assume "(t, m) = (tag, mt)"
      with a show ?thesis by (simp add: x)
    next
      assume o: "(t, m) \<in> set old"
      then obtain tags0 where "map_of imgs name = Some tags0" and "old = tags0"
        by (cases "map_of imgs name") (auto simp: old_def)
      with o a show ?thesis by (auto dest: map_of_SomeD)
    qed
  qed
qed

lemma foldl_add_image_sound:
  "(n, tags) \<in> set (foldl add_image imgs found) \<Longrightarrow> (t, m) \<in> set tags \<Longrightarrow>
     (n, t, m) \<in> set found \<or> (\<exists>tags0. (n, tags0) \<in> set imgs \<and> (t, m) \<in> set tags0)"
proof (induction found arbitrary: imgs)
  case Nil
  then show ?case by auto
next
  case (Cons x found)
  from Cons.IH [of "add_image imgs x"] Cons.prems
  have "(n, t, m) \<in> set found
      \<or> (\<exists>tags0. (n, tags0) \<in> set (add_image imgs x) \<and> (t, m) \<in> set tags0)"
    by simp
  then show ?case
    using add_image_sound [of n _ imgs x t m] by auto
qed

lemma found_of_image:
  "(n, tags) \<in> set (foldl add_image [] found) \<Longrightarrow> (t, m) \<in> set tags \<Longrightarrow> (n, t, m) \<in> set found"
  using foldl_add_image_sound [of n tags "[]" found t m] by simp

text \<open>An entry that discovery yields has its tag in the dict, whatever comes after it.\<close>

lemma add_image_keeps:
  assumes "(n, tags) \<in> set imgs" and "t \<in> fst ` set tags" and "distinct (map fst imgs)"
  shows "\<exists>tags'. (n, tags') \<in> set (add_image imgs x) \<and> t \<in> fst ` set tags'"
proof -
  obtain name tag mt where x: "x = (name, tag, mt)" by (cases x)
  define old where "old = (case map_of imgs name of None \<Rightarrow> [] | Some tags \<Rightarrow> tags)"
  have eq: "add_image imgs x = AList.update name (AList.update tag mt old) imgs"
    by (simp add: add_image_def x old_def)
  show ?thesis
  proof (cases "n = name")
    case False
    with assms(1) have "(n, tags) \<in> set (add_image imgs x)"
      unfolding eq by (intro update_other) auto
    with assms(2) show ?thesis by blast
  next
    case True
    from assms(1,3) have "map_of imgs n = Some tags" by simp
    then have old: "old = tags" by (simp add: old_def True)
    have "fst ` set (AList.update tag mt tags) = insert tag (fst ` set tags)"
      using update_keys [of tag mt tags] by (metis (no_types) list.set_map set_append
          Un_commute insert_absorb insert_is_Un list.simps(15) empty_set)
    with assms(2) have "t \<in> fst ` set (AList.update tag mt tags)" by simp
    moreover have "(n, AList.update tag mt tags) \<in> set (add_image imgs x)"
      unfolding eq old True by (rule update_mem)
    ultimately show ?thesis by blast
  qed
qed

lemma add_image_new:
  "\<exists>tags. (n, tags) \<in> set (add_image imgs (n, t, m)) \<and> (t, m) \<in> set tags"
  unfolding add_image_def by (auto intro!: update_mem simp: Let_def)

lemma foldl_add_image_keeps:
  "images_ok imgs \<Longrightarrow> (n, tags) \<in> set imgs \<Longrightarrow> t \<in> fst ` set tags \<Longrightarrow>
     \<exists>tags'. (n, tags') \<in> set (foldl add_image imgs found) \<and> t \<in> fst ` set tags'"
proof (induction found arbitrary: imgs tags)
  case Nil
  then show ?case by auto
next
  case (Cons x found)
  from Cons.prems have d: "distinct (map fst imgs)" by (simp add: images_ok_def)
  from add_image_keeps [OF Cons.prems(2,3) d, of x]
  obtain tags' where "(n, tags') \<in> set (add_image imgs x)" and "t \<in> fst ` set tags'" by blast
  with Cons.IH [OF images_ok_add [OF Cons.prems(1)]] show ?case by simp
qed

lemma image_of_found:
  "(n, t, m) \<in> set found \<Longrightarrow>
     \<exists>tags. (n, tags) \<in> set (foldl add_image imgs found) \<and> t \<in> fst ` set tags" if "images_ok imgs"
  using that
proof (induction found arbitrary: imgs)
  case Nil
  then show ?case by simp
next
  case (Cons x found)
  show ?case
  proof (cases "x = (n, t, m)")
    case True
    from add_image_new [of n imgs t m]
    obtain tags where "(n, tags) \<in> set (add_image imgs x)" and "t \<in> fst ` set tags"
      unfolding True by force
    with foldl_add_image_keeps [OF images_ok_add [OF Cons.prems(2)], of n tags x t found]
    show ?thesis by simp
  next
    case False
    with Cons.prems have "(n, t, m) \<in> set found" by simp
    from Cons.IH [OF this images_ok_add [OF Cons.prems(2)]] show ?thesis by simp
  qed
qed

lemma run_tag_route:
  assumes "ManifestTag n t m p d s \<in> set (fst (create_config load H root later sr np wc oc))"
  shows "p = lstrip CHR ''/'' np \<and> s = sr
     \<and> compute_digest H later [n, t, MANIFEST_JSON] = Inr d
     \<and> (\<exists>found. find_images load root = Inr found \<and> (n, t, m) \<in> set found)"
proof -
  from create_config_mem [OF assms] obtain found where found: "find_images load root = Inr found"
    and mem: "ManifestTag n t m p d s
        \<in> set (fst (images_loop H later sr np (sort_key fst (foldl add_image [] found))))"
    by auto
  from images_loop_mem [OF mem] obtain name tags
    where img: "(name, tags) \<in> set (foldl add_image [] found)"
      and r: "ManifestTag n t m p d s
          \<in> set (fst (manifests_loop H later sr np name {} (sort_key fst tags)))"
    by auto
  from manifests_loop_tag_route [OF r] have n: "n = name" and tm: "(t, m) \<in> set tags"
    and rest: "p = lstrip CHR ''/'' np \<and> s = sr \<and> compute_digest H later [n, t, MANIFEST_JSON] = Inr d"
    by auto
  from found_of_image [OF img tm] found n rest show ?thesis by auto
qed

lemma run_digest_route:
  assumes "ManifestDigest n t m p d s \<in> set (fst (create_config load H root later sr np wc oc))"
  shows "ManifestTag n t m p d s \<in> set (fst (create_config load H root later sr np wc oc))"
proof -
  from create_config_mem [OF assms] obtain found where oc: "\<not> oc"
    and found: "find_images load root = Inr found"
    and mem: "ManifestDigest n t m p d s
        \<in> set (fst (images_loop H later sr np (sort_key fst (foldl add_image [] found))))"
    by auto
  from images_loop_mem [OF mem] obtain name tags
    where r: "ManifestDigest n t m p d s
          \<in> set (fst (manifests_loop H later sr np name {} (sort_key fst tags)))"
      and sub: "set (fst (manifests_loop H later sr np name {} (sort_key fst tags)))
          \<subseteq> set (fst (images_loop H later sr np (sort_key fst (foldl add_image [] found))))"
    by auto
  from manifests_loop_digest_route [OF r] sub
  have "ManifestTag n t m p d s
      \<in> set (fst (images_loop H later sr np (sort_key fst (foldl add_image [] found))))"
    by blast
  with oc found show ?thesis by (simp add: create_config_scan)
qed

section \<open>The texts\<close>

lemma tag_invalid_text:
  \<open>tag_invalid =
     ''{"errors": [{"code": "TAG_INVALID", "message": "manifest tag did not match URI", "detail": ""}]}''\<close>
  by code_simp

lemma CONSTANTS_text:
  \<open>CONSTANTS =
     ''\<newline>location = /v2 {\<newline>    return 301 /v2/;\<newline>}\<newline>\<newline>location = /v2/ {\<newline>    return 200 'ok';\<newline>}\<newline>\<newline>location @404_tag {\<newline>    internal;\<newline>    types { } default_type "application/json";\<newline>    return 404 '{"errors": [{"code": "TAG_INVALID", "message": "manifest tag did not match URI", "detail": ""}]}';\<newline>}\<newline>''\<close>
  unfolding CONSTANTS_def tag_invalid_text by simp

lemma join_space:
  "xs \<noteq> [] \<Longrightarrow> join '' '' xs @ '' =404'' = concat (map (\<lambda>x. x @ '' '') xs) @ ''=404''"
  by (induction xs rule: induct_list012) simp_all

lemma manifest_tag_text:
  \<open>render (ManifestTag name tag mt p d s) =
     ''\<newline>location = "/v2/'' @ p @ name @ ''/manifests/'' @ tag @ ''" {\<newline>'' @
     serving_block s name tag mt d\<close>
  by (simp add: manifest_tag_location_def serving_block_def)

lemma manifest_digest_text:
  \<open>render (ManifestDigest name tag mt p d s) =
     ''\<newline>location = "/v2/'' @ p @ name @ ''/manifests/sha256:'' @ d @ ''" {\<newline>'' @
     serving_block s name tag mt d\<close>
  by (simp add: manifest_digest_location_def serving_block_def)

lemma blobs_text:
  \<open>tags \<noteq> [] \<Longrightarrow>
   render (Blobs p s name (join '' '' (map (\<lambda>tag. tag @ ''/$1'') tags))) =
     ''\<newline>location ~ "/v2/'' @ p @ name @ ''/blobs/sha256:([a-f0-9]{64})" {\<newline>'' @
     ''    alias '' @ s @ ''/'' @ name @ ''/;\<newline>'' @
     ''    try_files '' @ concat (map (\<lambda>tag. tag @ ''/$1 '') tags) @ ''=404;\<newline>}\<newline>''\<close>
proof -
  assume "tags \<noteq> []"
  then have "map (\<lambda>tag. tag @ ''/$1'') tags \<noteq> []" by simp
  from join_space [OF this]
  have "join '' '' (map (\<lambda>tag. tag @ ''/$1'') tags) @ '' =404''
      = concat (map (\<lambda>tag. tag @ ''/$1 '') tags) @ ''=404''"
    by (simp add: comp_def)
  then have "join '' '' (map (\<lambda>tag. tag @ ''/$1'') tags) @ '' =404;\<newline>}\<newline>''
      = concat (map (\<lambda>tag. tag @ ''/$1 '') tags) @ ''=404;\<newline>}\<newline>''"
    using arg_cong [where f = "\<lambda>x. x @ '';\<newline>}\<newline>''", OF \<open>join '' '' (map (\<lambda>tag. tag @ ''/$1'') tags) @ '' =404''
      = concat (map (\<lambda>tag. tag @ ''/$1 '') tags) @ ''=404''\<close>]
    by simp
  then show ?thesis by (simp add: blobs_location_def)
qed

section \<open>The fragments of one image in a run that ends normally\<close>

lemma manifests_loop_has_tag_route:
  assumes "snd (manifests_loop H later sr np name seen ts) = None" and "(t, m) \<in> set ts"
  shows "\<exists>d. compute_digest H later [name, t, MANIFEST_JSON] = Inr d
     \<and> ManifestTag name t m (lstrip CHR ''/'' np) d sr
         \<in> set (fst (manifests_loop H later sr np name seen ts))"
proof -
  from assms(2) obtain before after where ts: "ts = before @ (t, m) # after"
    by (auto dest: split_list)
  from manifests_loop_split [OF assms(1) [unfolded ts]] show ?thesis
    unfolding ts by auto
qed

lemma run_fragments_of_image:
  assumes run: "create_config load H root later sr np wc False = (frs, None)"
    and found: "find_images load root = Inr found"
    and img: "(name, tags) \<in> set (foldl add_image [] found)"
  shows "f \<in> set (image_block H later sr np (name, tags))
     \<longleftrightarrow> f \<in> set frs \<and> fragment_image f = Some name"
proof -
  have "set (filter (\<lambda>f. fragment_image f = Some name) frs)
      = set (image_block H later sr np (name, tags))"
    by (simp only: run_image_fragments(1) [OF run found img])
  then show ?thesis by auto
qed


lemma run_tag_route_recorded:
  assumes "ManifestTag n t m p d s \<in> set (fst (create_config load H root later sr np wc oc))"
  shows "\<exists>found tags. find_images load root = Inr found
     \<and> (n, tags) \<in> set (foldl add_image [] found) \<and> (t, m) \<in> set tags"
proof -
  from create_config_mem [OF assms] obtain found where found: "find_images load root = Inr found"
    and mem: "ManifestTag n t m p d s
        \<in> set (fst (images_loop H later sr np (sort_key fst (foldl add_image [] found))))"
    by auto
  from images_loop_mem [OF mem] obtain name tags
    where img: "(name, tags) \<in> set (foldl add_image [] found)"
      and r: "ManifestTag n t m p d s
          \<in> set (fst (manifests_loop H later sr np name {} (sort_key fst tags)))"
    by auto
  from manifests_loop_tag_route [OF r] have "n = name" and "(t, m) \<in> set tags"
    by auto
  with found img show ?thesis by auto
qed

lemma image_tags_distinct:
  "(name, tags) \<in> set (foldl add_image [] found) \<Longrightarrow> distinct (map fst tags) \<and> tags \<noteq> []"
  using images_ok_found [of found] by (auto simp: images_ok_def)

section \<open>The example with two images, evaluated\<close>

lemma example_load_b [simp]:
  "example_load manifest_b =
     Loaded (JObject [(''schemaVersion'', JInt 2), (''mediaType'', JString docker_v2)])"
  by (simp add: example_load_def)

lemma hexdigest_a: "hexdigest example_hash manifest_a = digest_a"
  unfolding digest_a_def by code_simp

lemma hexdigest_b: "hexdigest example_hash manifest_b = digest_b"
  unfolding digest_b_def by code_simp

lemma digest_a_b: "digest_a \<noteq> digest_b"
  by (simp add: digest_a_def digest_b_def)

lemma find_images_shared_tree:
  "find_images example_load shared_tree =
     Inr [(''bar'', ''latest'', docker_v2), (''app'', ''v2'', docker_v2),
          (''app'', ''v1'', docker_v2), (''app'', ''v3'', docker_v2)]"
  by (simp add: find_images_def listdir_def isdir_def isfile_def open_read_def check_tag_def
        shared_tree_def MANIFEST_JSON_def)

lemma images_shared_tree:
  "foldl add_image [] [(''bar'', ''latest'', docker_v2), (''app'', ''v2'', docker_v2),
          (''app'', ''v1'', docker_v2), (''app'', ''v3'', docker_v2)]
     = [(''bar'', [(''latest'', docker_v2)]),
        (''app'', [(''v2'', docker_v2), (''v1'', docker_v2), (''v3'', docker_v2)])]"
  by (simp add: add_image_def)

lemma sorted_images_shared_tree:
  "sort_key fst [(''bar'', [(''latest'', docker_v2)]),
        (''app'', [(''v2'', docker_v2), (''v1'', docker_v2), (''v3'', docker_v2)])]
     = [(''app'', [(''v2'', docker_v2), (''v1'', docker_v2), (''v3'', docker_v2)]),
        (''bar'', [(''latest'', docker_v2)])]"
  by code_simp

lemma sorted_tags_app:
  "sort_key fst [(''v2'', docker_v2), (''v1'', docker_v2), (''v3'', docker_v2)]
     = [(''v1'', docker_v2), (''v2'', docker_v2), (''v3'', docker_v2)]"
  by code_simp

lemma sorted_keys_app:
  "sort (map fst [(''v2'', docker_v2), (''v1'', docker_v2), (''v3'', docker_v2)])
     = [''v1'', ''v2'', ''v3'']"
  by code_simp

lemma digests_shared_tree:
  "compute_digest example_hash shared_tree [''app'', ''v1'', MANIFEST_JSON] = Inr digest_a"
  "compute_digest example_hash shared_tree [''app'', ''v2'', MANIFEST_JSON] = Inr digest_a"
  "compute_digest example_hash shared_tree [''app'', ''v3'', MANIFEST_JSON] = Inr digest_b"
  "compute_digest example_hash shared_tree [''bar'', ''latest'', MANIFEST_JSON] = Inr digest_a"
  by (simp_all add: compute_digest_read open_read_def shared_tree_def MANIFEST_JSON_def
        hexdigest_a hexdigest_b)

lemma create_config_shared_tree:
  "create_config example_load example_hash shared_tree shared_tree ''/srv'' ''/'' False False =
     ([TagsList ''app'' [] (dumps_tag_list ''app'' [''v1'', ''v2'', ''v3'']),
       ManifestTag ''app'' ''v1'' docker_v2 [] digest_a ''/srv'',
       ManifestDigest ''app'' ''v1'' docker_v2 [] digest_a ''/srv'',
       ManifestTag ''app'' ''v2'' docker_v2 [] digest_a ''/srv'',
       AlreadyServed ''app'' ''v2'',
       ManifestTag ''app'' ''v3'' docker_v2 [] digest_b ''/srv'',
       ManifestDigest ''app'' ''v3'' docker_v2 [] digest_b ''/srv'',
       Blobs [] ''/srv'' ''app'' ''v1/$1 v2/$1 v3/$1'',
       TagsList ''bar'' [] (dumps_tag_list ''bar'' [''latest'']),
       ManifestTag ''bar'' ''latest'' docker_v2 [] digest_a ''/srv'',
       ManifestDigest ''bar'' ''latest'' docker_v2 [] digest_a ''/srv'',
       Blobs [] ''/srv'' ''bar'' ''latest/$1''], None)"
  unfolding create_config_scan find_images_shared_tree sum.case images_shared_tree
    sorted_images_shared_tree
  by (simp add: sorted_tags_app sorted_keys_app images_loop_Cons
        manifests_loop_Cons digests_shared_tree digest_a_b digest_a_b [symmetric] lstrip_def)

section \<open>What discovery yields\<close>

lemma isdir_listdir: "isdir root p \<Longrightarrow> \<exists>names. listdir root p = Inr names"
  by (auto simp: isdir_def listdir_def split: option.splits node.splits)

lemma tags_loop_Inr:
  "tags_loop load root name tags = Inr found \<Longrightarrow>
     set found = {(n, t, m). n = name \<and> t \<in> set tags \<and> check_tag load root name t = Inr (Some m)}
     \<and> (\<forall>t \<in> set tags. \<forall>e. check_tag load root name t \<noteq> Inl e)"
proof (induction tags arbitrary: found)
  case Nil
  then show ?case by auto
next
  case (Cons tag tags)
  from Cons.prems obtain r rest where r: "check_tag load root name tag = Inr r"
    and rest: "tags_loop load root name tags = Inr rest"
    and found: "found = (case r of None \<Rightarrow> [] | Some m \<Rightarrow> [(name, tag, m)]) @ rest"
    by (auto split: sum.splits)
  from Cons.IH [OF rest] r show ?case
    unfolding found by (cases r) auto
qed

lemma tags_loop_Inl:
  "tags_loop load root name tags = Inl e \<Longrightarrow>
     \<exists>t \<in> set tags. \<exists>e'. check_tag load root name t = Inl e'"
proof (induction tags)
  case Nil
  then show ?case by simp
next
  case (Cons tag tags)
  then show ?case by (auto split: sum.splits)
qed

lemma names_loop_Inr:
  "names_loop load root names = Inr found \<Longrightarrow>
     set found = {(n, t, m). n \<in> set names \<and> isdir root [n]
                    \<and> (\<exists>tags. listdir root [n] = Inr tags \<and> t \<in> set tags)
                    \<and> check_tag load root n t = Inr (Some m)}
     \<and> (\<forall>n \<in> set names. \<forall>tags t e. isdir root [n] \<and> listdir root [n] = Inr tags \<and> t \<in> set tags
            \<longrightarrow> check_tag load root n t \<noteq> Inl e)"
proof (induction names arbitrary: found)
  case Nil
  then show ?case by auto
next
  case (Cons name names)
  show ?case
  proof (cases "isdir root [name]")
    case False
    with Cons.prems have "names_loop load root names = Inr found" by simp
    from Cons.IH [OF this] False show ?thesis by auto
  next
    case True
    from isdir_listdir [OF True] obtain tags where tags: "listdir root [name] = Inr tags" by blast
    from Cons.prems True tags obtain here more
      where here: "tags_loop load root name tags = Inr here"
        and more: "names_loop load root names = Inr more"
        and found: "found = here @ more"
      by (auto split: sum.splits)
    from tags_loop_Inr [OF here] Cons.IH [OF more] True tags show ?thesis
      unfolding found by auto
  qed
qed

lemma names_loop_Inl:
  "names_loop load root names = Inl e \<Longrightarrow>
     \<exists>n \<in> set names. \<exists>tags t e'. isdir root [n] \<and> listdir root [n] = Inr tags \<and> t \<in> set tags
        \<and> check_tag load root n t = Inl e'"
proof (induction names)
  case Nil
  then show ?case by simp
next
  case (Cons name names)
  show ?case
  proof (cases "isdir root [name]")
    case False
    with Cons show ?thesis by auto
  next
    case True
    from isdir_listdir [OF True] obtain tags where tags: "listdir root [name] = Inr tags" by blast
    show ?thesis
    proof (cases "tags_loop load root name tags")
      case (Inl e')
      from tags_loop_Inl [OF this] True tags show ?thesis by auto
    next
      case (Inr here)
      with Cons.prems True tags have "names_loop load root names = Inl e"
        by (auto split: sum.splits)
      from Cons.IH [OF this] show ?thesis by auto
    qed
  qed
qed

lemma find_images_Inr:
  "find_images load root = Inr found \<Longrightarrow>
     set found = {(n, t, m). discovered load root n t m} \<and> \<not> discovery_raises load root"
proof -
  assume a: "find_images load root = Inr found"
  then obtain names where names: "listdir root [] = Inr names"
    and loop: "names_loop load root names = Inr found"
    by (auto simp: find_images_def split: sum.splits)
  from names_loop_Inr [OF loop] names show ?thesis
    unfolding discovered_def discovery_raises_def by auto
qed

lemma find_images_Inl:
  "find_images load root = Inl e \<Longrightarrow> discovery_raises load root"
proof -
  assume a: "find_images load root = Inl e"
  show ?thesis
  proof (cases "listdir root []")
    case (Inl e')
    then show ?thesis by (auto simp: discovery_raises_def)
  next
    case (Inr names)
    with a have "names_loop load root names = Inl e" by (simp add: find_images_def)
    from names_loop_Inl [OF this] Inr show ?thesis
      unfolding discovery_raises_def by blast
  qed
qed

lemma find_images_raises: "(\<exists>e. find_images load root = Inl e) \<longleftrightarrow> discovery_raises load root"
  using find_images_Inl [of load root] find_images_Inr [of load root]
  by (cases "find_images load root") auto

section \<open>Listing a tree in another order\<close>

lemma map_of_mset:
  assumes "distinct (map fst ts)" and "mset ts = mset us"
  shows "map_of ts = map_of us"
proof -
  from assms(2) have "mset (map fst ts) = mset (map fst us)" by (metis mset_map)
  with assms(1) have "distinct (map fst us)" by (metis mset_eq_imp_distinct_iff)
  moreover from assms(2) have "set ts = set us" by (rule mset_eq_setD)
  ultimately show ?thesis using assms(1) by (simp add: map_of_inject_set)
qed

lemma same_entries_resolve:
  "same_entries a b \<Longrightarrow> resolve a (t # p) = resolve b (t # p)"
  by (cases a; cases b) (simp_all add: map_of_mset)

lemma same_entries_kind:
  "same_entries a b \<Longrightarrow>
     (case a of Dir ts \<Rightarrow> (case b of Dir us \<Rightarrow> set (map fst ts) = set (map fst us) | File _ \<Rightarrow> False)
              | File x \<Rightarrow> b = File x)"
  by (cases a; cases b) (auto dest: mset_eq_setD)

lemma relisted_DirD:
  assumes "relisted (Dir es) (Dir fs)"
  shows "set (map fst es) = set (map fst fs)"
    and "n \<in> set (map fst es) \<Longrightarrow>
           \<exists>a b. map_of es n = Some a \<and> map_of fs n = Some b \<and> same_entries a b"
proof -
  from assms have m: "mset (map fst es) = mset (map fst fs)"
    and l: "list_all (\<lambda>name. case (map_of es name, map_of fs name) of
                          (Some a, Some b) \<Rightarrow> same_entries a b
                        | _ \<Rightarrow> False) (map fst es)"
    unfolding relisted.simps by blast+
  from m show "set (map fst es) = set (map fst fs)" by (rule mset_eq_setD)
  assume "n \<in> set (map fst es)"
  with l have "case (map_of es n, map_of fs n) of
      (Some a, Some b) \<Rightarrow> same_entries a b | _ \<Rightarrow> False"
    unfolding list_all_iff by blast
  then show "\<exists>a b. map_of es n = Some a \<and> map_of fs n = Some b \<and> same_entries a b"
    by (cases "map_of es n"; cases "map_of fs n") simp_all
qed

lemma relisted_lookup:
  assumes "relisted (Dir es) (Dir fs)"
  shows "(map_of es n = None \<and> map_of fs n = None)
     \<or> (\<exists>a b. map_of es n = Some a \<and> map_of fs n = Some b \<and> same_entries a b)"
proof (cases "n \<in> set (map fst es)")
  case True
  from relisted_DirD(2) [OF assms True] show ?thesis by blast
next
  case False
  with relisted_DirD(1) [OF assms] have "n \<notin> fst ` set es" "n \<notin> fst ` set fs" by auto
  then show ?thesis by (simp add: map_of_eq_None_iff)
qed

lemma relisted_resolve:
  assumes "relisted a b"
  shows "resolve a (n # t # p) = resolve b (n # t # p)"
proof (cases a)
  case (File x)
  with assms show ?thesis by (cases b) simp_all
next
  case (Dir es)
  show ?thesis
  proof (cases b)
    case (File x)
    with assms Dir show ?thesis by simp
  next
    case b: (Dir fs)
    from relisted_lookup [OF assms [unfolded Dir b], of n] show ?thesis
    proof
      assume "map_of es n = None \<and> map_of fs n = None"
      then show ?thesis by (simp add: Dir b)
    next
      assume "\<exists>x y. map_of es n = Some x \<and> map_of fs n = Some y \<and> same_entries x y"
      then obtain x y where "map_of es n = Some x" "map_of fs n = Some y" "same_entries x y"
        by blast
      with same_entries_resolve [of x y t p] show ?thesis by (simp add: Dir b)
    qed
  qed
qed

lemma same_entries_isdir:
  "same_entries x y \<Longrightarrow> (case x of Dir _ \<Rightarrow> True | File _ \<Rightarrow> False)
     = (case y of Dir _ \<Rightarrow> True | File _ \<Rightarrow> False)"
  by (cases x; cases y) simp_all

lemma same_entries_listing:
  "same_entries (Dir ts) y \<Longrightarrow> \<exists>us. y = Dir us \<and> set (map fst ts) = set (map fst us)"
proof (cases y)
  case (Dir us)
  assume "same_entries (Dir ts) y"
  with Dir have "mset ts = mset us" by simp
  then have "set ts = set us" by (rule mset_eq_setD)
  with Dir show ?thesis by simp
qed simp

lemma relisted_isdir: "relisted a b \<Longrightarrow> isdir a [n] = isdir b [n]"
proof (cases a; cases b)
  fix es fs assume r: "relisted a b" and a: "a = Dir es" and b: "b = Dir fs"
  from relisted_lookup [OF r [unfolded a b], of n] show ?thesis
  proof
    assume "map_of es n = None \<and> map_of fs n = None"
    then show ?thesis by (simp add: a b isdir_def)
  next
    assume "\<exists>x y. map_of es n = Some x \<and> map_of fs n = Some y \<and> same_entries x y"
    then obtain x y where "map_of es n = Some x" "map_of fs n = Some y" "same_entries x y"
      by blast
    with same_entries_isdir [of x y] show ?thesis by (simp add: a b isdir_def)
  qed
qed (auto simp: isdir_def)

lemma relisted_listdir:
  assumes "relisted a b" and "listdir a [n] = Inr ts"
  shows "\<exists>us. listdir b [n] = Inr us \<and> set ts = set us"
proof (cases a; cases b)
  fix es fs assume a: "a = Dir es" and b: "b = Dir fs"
  from assms(2) obtain xs where x: "map_of es n = Some (Dir xs)" and ts: "ts = map fst xs"
    unfolding a listdir_def by (auto split: option.splits node.splits)
  from relisted_lookup [OF assms(1) [unfolded a b], of n] x
  obtain y where y: "map_of fs n = Some y" and s: "same_entries (Dir xs) y" by auto
  from same_entries_listing [OF s] obtain us where "y = Dir us" "set (map fst xs) = set (map fst us)"
    by blast
  with y ts show ?thesis by (simp add: b listdir_def)
qed (use assms in \<open>auto simp: listdir_def\<close>)

lemma relisted_listdir_root:
  assumes "relisted a b"
  shows "(\<exists>e. listdir a [] = Inl e \<and> listdir b [] = Inl e)
     \<or> (\<exists>ns ms. listdir a [] = Inr ns \<and> listdir b [] = Inr ms \<and> set ns = set ms)"
proof (cases a; cases b)
  fix es fs assume a: "a = Dir es" and b: "b = Dir fs"
  from relisted_DirD(1) [OF assms [unfolded a b]]
  show ?thesis by (simp add: a b listdir_def)
qed (use assms in \<open>auto simp: listdir_def\<close>)

lemma relisted_check_tag: "relisted a b \<Longrightarrow> check_tag load a n t = check_tag load b n t"
  by (simp add: check_tag_def isdir_def isfile_def open_read_def relisted_resolve)

lemma relisted_compute_digest:
  "relisted a b \<Longrightarrow> compute_digest H a [n, t, f] = compute_digest H b [n, t, f]"
  by (simp add: compute_digest_def open_read_def relisted_resolve)

lemma relisted_discovered_imp:
  assumes "relisted a b" and "discovered load a n t m"
  shows "discovered load b n t m"
proof -
  from assms(2) obtain names tags where names: "listdir a [] = Inr names" "n \<in> set names"
    and d: "isdir a [n]" and tags: "listdir a [n] = Inr tags" "t \<in> set tags"
    and c: "check_tag load a n t = Inr (Some m)"
    unfolding discovered_def by blast
  from relisted_listdir_root [OF assms(1)] names
  obtain ms where "listdir b [] = Inr ms" "n \<in> set ms" by auto
  moreover from relisted_listdir [OF assms(1) tags(1)] tags(2)
  obtain us where "listdir b [n] = Inr us" "t \<in> set us" by auto
  ultimately show ?thesis
    unfolding discovered_def
    using d c relisted_isdir [OF assms(1), of n] relisted_check_tag [OF assms(1), of load n t]
    by auto
qed

lemma relisted_raises_imp:
  assumes "relisted a b" and "discovery_raises load a"
  shows "discovery_raises load b"
proof -
  from assms(2) consider e where "listdir a [] = Inl e"
    | names name tags tag e where "listdir a [] = Inr names" "name \<in> set names"
        "isdir a [name]" "listdir a [name] = Inr tags" "tag \<in> set tags"
        "check_tag load a name tag = Inl e"
    unfolding discovery_raises_def by blast
  then show ?thesis
  proof cases
    case 1
    with relisted_listdir_root [OF assms(1)] show ?thesis
      by (auto simp: discovery_raises_def)
  next
    case 2
    from relisted_listdir_root [OF assms(1)] 2(1,2)
    obtain ms where "listdir b [] = Inr ms" "name \<in> set ms" by auto
    moreover from relisted_listdir [OF assms(1) 2(4)] 2(5)
    obtain us where "listdir b [name] = Inr us" "tag \<in> set us" by auto
    ultimately show ?thesis
      unfolding discovery_raises_def
      using 2(3,6) relisted_isdir [OF assms(1), of name]
        relisted_check_tag [OF assms(1), of load name tag]
      by auto
  qed
qed

lemma same_entries_sym: "same_entries a b \<Longrightarrow> same_entries b a"
proof (cases a; cases b)
  fix ts us assume s: "same_entries a b" and a: "a = Dir ts" and b: "b = Dir us"
  then have d: "distinct (map fst ts)" and m: "mset ts = mset us" by simp_all
  from m have "mset (map fst ts) = mset (map fst us)" by (metis mset_map)
  with d have "distinct (map fst us)" by (metis mset_eq_imp_distinct_iff)
  with m show ?thesis by (simp add: a b)
qed auto

lemma relisted_sym: "relisted a b \<Longrightarrow> relisted b a"
proof (cases a; cases b)
  fix es fs assume r: "relisted a b" and a: "a = Dir es" and b: "b = Dir fs"
  from r have d: "distinct (map fst es)" and m: "mset (map fst es) = mset (map fst fs)"
    unfolding a b relisted.simps by blast+
  from d m have d': "distinct (map fst fs)" by (metis mset_eq_imp_distinct_iff)
  have "case (map_of fs n, map_of es n) of (Some x, Some y) \<Rightarrow> same_entries x y | _ \<Rightarrow> False"
    if "n \<in> set (map fst fs)" for n
  proof -
    from that relisted_DirD(1) [OF r [unfolded a b]] have "n \<in> set (map fst es)" by simp
    from relisted_DirD(2) [OF r [unfolded a b] this]
    obtain x y where "map_of es n = Some x" "map_of fs n = Some y" "same_entries x y" by blast
    with same_entries_sym [of x y] show ?thesis by simp
  qed
  then have "list_all (\<lambda>n. case (map_of fs n, map_of es n) of
      (Some x, Some y) \<Rightarrow> same_entries x y | _ \<Rightarrow> False) (map fst fs)"
    unfolding list_all_iff by blast
  with d' m show ?thesis unfolding a b relisted.simps by simp
qed auto

lemma relisted_discovered:
  "relisted a b \<Longrightarrow> discovered load a n t m = discovered load b n t m"
  using relisted_discovered_imp [of a b load n t m] relisted_discovered_imp [of b a load n t m]
    relisted_sym [of a b] by blast

lemma relisted_raises:
  "relisted a b \<Longrightarrow> discovery_raises load a = discovery_raises load b"
  using relisted_raises_imp [of a b load] relisted_raises_imp [of b a load]
    relisted_sym [of a b] by blast

section \<open>The dict of images does not depend on the order of discovery\<close>

lemma rebuild_alist:
  "distinct (map fst xs) \<Longrightarrow> map (\<lambda>k. (k, the (map_of xs k))) (map fst xs) = xs"
proof (induction xs)
  case Nil
  show ?case by simp
next
  case (Cons x xs)
  obtain k v where x: "x = (k, v)" by (cases x)
  from Cons.prems have k: "k \<notin> fst ` set xs" and d: "distinct (map fst xs)"
    by (simp_all add: x)
  have "map (\<lambda>k'. (k', the (map_of (x # xs) k'))) (map fst xs)
      = map (\<lambda>k'. (k', the (map_of xs k'))) (map fst xs)"
    using k by (auto simp: x)
  with Cons.IH [OF d] show ?case by (simp add: x)
qed

lemma same_keys_same_set:
  assumes "map fst xs = map fst ys" and "set xs = set ys" and "distinct (map fst xs)"
  shows "xs = ys"
proof -
  from assms have d: "distinct (map fst ys)" by simp
  from assms d have "map_of xs = map_of ys" by (simp add: map_of_inject_set)
  with assms(1) have "map (\<lambda>k. (k, the (map_of xs k))) (map fst xs)
      = map (\<lambda>k. (k, the (map_of ys k))) (map fst ys)"
    by simp
  then show ?thesis
    unfolding rebuild_alist [OF assms(3)] rebuild_alist [OF d] .
qed

lemma sort_map_fst: "sort (map fst xs) = map fst (sort_key fst xs)"
proof -
  have "insort (fst x) (map fst ys) = map fst (insort_key fst x ys)" for x :: "'a \<times> 'b" and ys
    by (induction ys) simp_all
  then show ?thesis by (induction xs) simp_all
qed

lemma sort_key_fst_unique:
  assumes "distinct (map fst xs)" and "distinct (map fst ys)" and "set xs = set ys"
  shows "sort_key fst xs = sort_key fst ys"
proof (rule same_keys_same_set)
  have "sort (map fst xs) = sort (map fst ys)"
  proof (rule sorted_distinct_set_unique)
    show "set (sort (map fst xs)) = set (sort (map fst ys))" using assms(3) by simp
  qed (use assms in simp_all)
  then show "map fst (sort_key fst xs) = map fst (sort_key fst ys)"
    by (simp only: sort_map_fst)
  show "set (sort_key fst xs) = set (sort_key fst ys)" using assms(3) by simp
  show "distinct (map fst (sort_key fst xs))" using assms(1) by (simp add: distinct_sort_key_fst)
qed

lemma image_unique:
  "(n, tags) \<in> set (foldl add_image [] found) \<Longrightarrow> (n, tags') \<in> set (foldl add_image [] found)
   \<Longrightarrow> tags = tags'"
  using images_ok_found [of found] by (auto simp: images_ok_def dest: eq_key_imp_eq_value)

lemma image_tags_set:
  assumes fn: "\<And>n t m m'. (n, t, m) \<in> set found \<Longrightarrow> (n, t, m') \<in> set found \<Longrightarrow> m = m'"
    and img: "(n, tags) \<in> set (foldl add_image [] found)"
  shows "set tags = {(t, m). (n, t, m) \<in> set found}"
proof (intro set_eqI iffI)
  fix x assume "x \<in> set tags"
  with found_of_image [OF img, of "fst x" "snd x"] show "x \<in> {(t, m). (n, t, m) \<in> set found}"
    by (cases x) simp
next
  fix x assume "x \<in> {(t, m). (n, t, m) \<in> set found}"
  then obtain t m where x: "x = (t, m)" and mem: "(n, t, m) \<in> set found" by (cases x) auto
  have "images_ok []" by (simp add: images_ok_def)
  from image_of_found [OF this mem] obtain tags' m'
    where img': "(n, tags') \<in> set (foldl add_image [] found)" and tm: "(t, m') \<in> set tags'"
    by auto
  from image_unique [OF img img'] tm have tm': "(t, m') \<in> set tags" by simp
  from found_of_image [OF img tm'] mem have "m' = m" by (rule fn)
  with tm' show "x \<in> set tags" by (simp add: x)
qed

lemma image_names:
  "fst ` set (foldl add_image [] found) = (\<lambda>(n, t, m). n) ` set found"
proof (intro set_eqI iffI)
  fix n assume "n \<in> fst ` set (foldl add_image [] found)"
  then obtain tags where img: "(n, tags) \<in> set (foldl add_image [] found)" by auto
  from image_tags_distinct [OF img] obtain t m where "(t, m) \<in> set tags"
    by (cases tags) auto
  from found_of_image [OF img this] show "n \<in> (\<lambda>(n, t, m). n) ` set found" by force
next
  fix n assume "n \<in> (\<lambda>(n, t, m). n) ` set found"
  then obtain t m where mem: "(n, t, m) \<in> set found" by auto
  have "images_ok []" by (simp add: images_ok_def)
  from image_of_found [OF this mem] show "n \<in> fst ` set (foldl add_image [] found)" by force
qed

text \<open>The sorted dict with every inner dict sorted.\<close>

lemma sorted_images_unique:
  assumes fn: "\<And>n t m m'. (n, t, m) \<in> set f1 \<Longrightarrow> (n, t, m') \<in> set f1 \<Longrightarrow> m = m'"
    and eq: "set f1 = set f2"
  shows "map (\<lambda>(n, tags). (n, sort_key fst tags)) (sort_key fst (foldl add_image [] f1))
       = map (\<lambda>(n, tags). (n, sort_key fst tags)) (sort_key fst (foldl add_image [] f2))"
    (is "map ?c (sort_key fst ?I1) = map ?c (sort_key fst ?I2)")
proof (rule same_keys_same_set)
  have fn2: "\<And>n t m m'. (n, t, m) \<in> set f2 \<Longrightarrow> (n, t, m') \<in> set f2 \<Longrightarrow> m = m'"
    using fn eq by blast
  have d1: "distinct (map fst ?I1)" and d2: "distinct (map fst ?I2)"
    using images_ok_found [of f1] images_ok_found [of f2] by (simp_all add: images_ok_def)
  have keys: "map fst (map ?c xs) = map fst xs" for xs :: images
    by (induction xs) auto
  have names: "fst ` set ?I1 = fst ` set ?I2"
    by (simp only: image_names eq)
  have "sort (map fst ?I1) = sort (map fst ?I2)"
  proof (rule sorted_distinct_set_unique)
    show "set (sort (map fst ?I1)) = set (sort (map fst ?I2))" using names by simp
  qed (use d1 d2 in simp_all)
  then show "map fst (map ?c (sort_key fst ?I1)) = map fst (map ?c (sort_key fst ?I2))"
    by (simp only: keys sort_map_fst)
  show "distinct (map fst (map ?c (sort_key fst ?I1)))"
    using d1 by (simp only: keys distinct_sort_key_fst)
  have sub: "set (map ?c (sort_key fst (foldl add_image [] fa)))
      \<subseteq> set (map ?c (sort_key fst (foldl add_image [] fb)))"
    if fa': "\<forall>n t m m'. (n, t, m) \<in> set fa \<longrightarrow> (n, t, m') \<in> set fa \<longrightarrow> m = m'"
      and fb': "\<forall>n t m m'. (n, t, m) \<in> set fb \<longrightarrow> (n, t, m') \<in> set fb \<longrightarrow> m = m'"
      and e: "set fa = set fb" for fa fb
  proof
    have fa: "\<And>n t m m'. (n, t, m) \<in> set fa \<Longrightarrow> (n, t, m') \<in> set fa \<Longrightarrow> m = m'"
      using fa' by blast
    have fb: "\<And>n t m m'. (n, t, m) \<in> set fb \<Longrightarrow> (n, t, m') \<in> set fb \<Longrightarrow> m = m'"
      using fb' by blast
    fix x assume "x \<in> set (map ?c (sort_key fst (foldl add_image [] fa)))"
    then obtain n tags where x: "x = (n, sort_key fst tags)"
      and img: "(n, tags) \<in> set (foldl add_image [] fa)"
      by auto
    from img have "n \<in> fst ` set (foldl add_image [] fa)" by force
    then have "n \<in> fst ` set (foldl add_image [] fb)" by (simp only: image_names e)
    then obtain tags' where img': "(n, tags') \<in> set (foldl add_image [] fb)" by auto
    have "set tags = {(t, m). (n, t, m) \<in> set fa}"
      using fa img by (rule image_tags_set)
    moreover have "set tags' = {(t, m). (n, t, m) \<in> set fb}"
      using fb img' by (rule image_tags_set)
    ultimately have "set tags = set tags'" by (simp only: e)
    with image_tags_distinct [OF img] image_tags_distinct [OF img']
    have "sort_key fst tags = sort_key fst tags'" by (intro sort_key_fst_unique) simp_all
    with img' show "x \<in> set (map ?c (sort_key fst (foldl add_image [] fb)))"
      unfolding x by force
  qed
  have o1: "\<forall>n t m m'. (n, t, m) \<in> set f1 \<longrightarrow> (n, t, m') \<in> set f1 \<longrightarrow> m = m'"
    using fn by blast
  have o2: "\<forall>n t m m'. (n, t, m) \<in> set f2 \<longrightarrow> (n, t, m') \<in> set f2 \<longrightarrow> m = m'"
    using fn2 by blast
  from sub [OF o1 o2 eq] sub [OF o2 o1 eq [symmetric]]
  show "set (map ?c (sort_key fst ?I1)) = set (map ?c (sort_key fst ?I2))" by blast
qed

section \<open>The loops on trees with the same files\<close>

lemma manifests_loop_cong:
  assumes "\<And>t. compute_digest H l1 [name, t, MANIFEST_JSON] = compute_digest H l2 [name, t, MANIFEST_JSON]"
  shows "manifests_loop H l1 sr np name seen tags = manifests_loop H l2 sr np name seen tags"
proof (induction tags arbitrary: seen)
  case Nil
  show ?case by simp
next
  case (Cons x tags)
  obtain tag m where x: "x = (tag, m)" by (cases x)
  show ?case
    unfolding x manifests_loop_Cons assms using Cons by (simp split: sum.splits)
qed

lemma images_loop_canon:
  assumes d: "\<And>n t. compute_digest H l1 [n, t, MANIFEST_JSON] = compute_digest H l2 [n, t, MANIFEST_JSON]"
  shows "map (\<lambda>(n, tags). (n, sort_key fst tags)) imgs1
           = map (\<lambda>(n, tags). (n, sort_key fst tags)) imgs2
         \<Longrightarrow> images_loop H l1 sr np imgs1 = images_loop H l2 sr np imgs2"
proof (induction imgs1 arbitrary: imgs2)
  case Nil
  then show ?case by simp
next
  case (Cons img imgs1)
  obtain n tags where img: "img = (n, tags)" by (cases img)
  from Cons.prems obtain img2 rest where imgs2: "imgs2 = img2 # rest" by (cases imgs2) auto
  obtain n2 tags2 where img2: "img2 = (n2, tags2)" by (cases img2)
  from Cons.prems have n: "n2 = n" and st: "sort_key fst tags2 = sort_key fst tags"
    and tl: "map (\<lambda>(n, tags). (n, sort_key fst tags)) imgs1
           = map (\<lambda>(n, tags). (n, sort_key fst tags)) rest"
    by (simp_all add: img imgs2 img2)
  from st have keys: "sort (map fst tags2) = sort (map fst tags)"
    by (simp only: sort_map_fst)
  have m: "manifests_loop H l1 sr np n {} (sort_key fst tags)
         = manifests_loop H l2 sr np n {} (sort_key fst tags)"
    by (rule manifests_loop_cong) (rule d)
  show ?case
    unfolding img imgs2 img2 n images_loop_Cons st keys m Cons.IH [OF tl] ..
qed

section \<open>The order of the output\<close>

lemma discovered_functional:
  "discovered load root n t m \<Longrightarrow> discovered load root n t m' \<Longrightarrow> m = m'"
  by (auto simp: discovered_def)

lemma run_relisted:
  assumes r: "relisted r1 r2" and l: "relisted l1 l2"
  shows "fst (create_config load H r1 l1 sr np wc oc) = fst (create_config load H r2 l2 sr np wc oc)
     \<and> (snd (create_config load H r1 l1 sr np wc oc) = None
          \<longleftrightarrow> snd (create_config load H r2 l2 sr np wc oc) = None)"
proof (cases oc)
  case True
  then show ?thesis by (simp add: create_config_only)
next
  case False
  show ?thesis
  proof (cases "find_images load r1")
    case (Inl e)
    then have "discovery_raises load r1" by (rule find_images_Inl)
    with r have "discovery_raises load r2" by (simp add: relisted_raises)
    then obtain e' where "find_images load r2 = Inl e'"
      using find_images_raises [of load r2] by blast
    with Inl False show ?thesis by (simp add: create_config_scan)
  next
    case (Inr f1)
    from find_images_Inr [OF Inr] have s1: "set f1 = {(n, t, m). discovered load r1 n t m}"
      and "\<not> discovery_raises load r1" by simp_all
    with r have "\<not> discovery_raises load r2" by (simp add: relisted_raises)
    then obtain f2 where f2: "find_images load r2 = Inr f2"
      using find_images_raises [of load r2] by (cases "find_images load r2") auto
    from find_images_Inr [OF f2] have s2: "set f2 = {(n, t, m). discovered load r2 n t m}"
      by simp
    from s1 s2 r have eq: "set f1 = set f2" by (simp add: relisted_discovered)
    have fn: "m = m'" if "(n, t, m) \<in> set f1" "(n, t, m') \<in> set f1" for n t m m'
      using that s1 discovered_functional [of load r1 n t m m'] by simp
    have d: "compute_digest H l1 [n, t, MANIFEST_JSON] = compute_digest H l2 [n, t, MANIFEST_JSON]"
      for n t
      using l by (rule relisted_compute_digest)
    have "images_loop H l1 sr np (sort_key fst (foldl add_image [] f1))
        = images_loop H l2 sr np (sort_key fst (foldl add_image [] f2))"
      using d
    proof (rule images_loop_canon)
      show "map (\<lambda>(n, tags). (n, sort_key fst tags)) (sort_key fst (foldl add_image [] f1))
          = map (\<lambda>(n, tags). (n, sort_key fst tags)) (sort_key fst (foldl add_image [] f2))"
        using fn eq by (rule sorted_images_unique)
    qed
    with Inr f2 False show ?thesis by (simp add: create_config_scan)
  qed
qed

lemma prefix_sorted: "prefix xs ys \<Longrightarrow> sorted ys \<Longrightarrow> sorted xs"
  by (auto simp: prefix_def sorted_append)

lemma prefix_distinct: "prefix xs ys \<Longrightarrow> distinct ys \<Longrightarrow> distinct xs"
  by (auto simp: prefix_def)

lemma manifests_loop_no_tag_list:
  "concat (map tags_list_name (fst (manifests_loop H l sr np name seen ts))) = []"
proof (induction ts arbitrary: seen)
  case Nil
  show ?case by simp
next
  case (Cons x ts)
  obtain tag m where x: "x = (tag, m)" by (cases x)
  show ?case
    unfolding x manifests_loop_Cons using Cons by (simp split: sum.splits)
qed

lemma manifests_loop_tag_order:
  "prefix (concat (map (manifest_tag_of name) (fst (manifests_loop H l sr np name seen ts))))
     (map fst ts)"
proof (induction ts arbitrary: seen)
  case Nil
  show ?case by simp
next
  case (Cons x ts)
  obtain tag m where x: "x = (tag, m)" by (cases x)
  show ?case
    unfolding x manifests_loop_Cons using Cons by (simp split: sum.splits)
qed

lemma manifests_loop_other_image:
  "n \<noteq> name \<Longrightarrow>
     concat (map (manifest_tag_of n) (fst (manifests_loop H l sr np name seen ts))) = []"
proof (induction ts arbitrary: seen)
  case Nil
  show ?case by simp
next
  case (Cons x ts)
  obtain tag m where x: "x = (tag, m)" by (cases x)
  show ?case
    unfolding x manifests_loop_Cons using Cons by (simp split: sum.splits)
qed

lemma images_loop_name_order:
  "prefix (concat (map tags_list_name (fst (images_loop H l sr np imgs)))) (map fst imgs)"
proof (induction imgs)
  case Nil
  show ?case by simp
next
  case (Cons img imgs)
  obtain name tags where img: "img = (name, tags)" by (cases img)
  obtain routes err where m: "manifests_loop H l sr np name {} (sort_key fst tags) = (routes, err)"
    by (cases "manifests_loop H l sr np name {} (sort_key fst tags)")
  have r: "concat (map tags_list_name routes) = []"
    using manifests_loop_no_tag_list [of H l sr np name "{}" "sort_key fst tags"] by (simp add: m)
  show ?case
    unfolding img images_loop_Cons m using Cons by (cases err) (simp_all add: r)
qed

lemma images_loop_other_images:
  "n \<notin> fst ` set imgs \<Longrightarrow>
     concat (map (manifest_tag_of n) (fst (images_loop H l sr np imgs))) = []"
proof (induction imgs)
  case Nil
  show ?case by simp
next
  case (Cons img imgs)
  obtain name tags where img: "img = (name, tags)" by (cases img)
  obtain routes err where m: "manifests_loop H l sr np name {} (sort_key fst tags) = (routes, err)"
    by (cases "manifests_loop H l sr np name {} (sort_key fst tags)")
  from Cons.prems have ne: "n \<noteq> name" and rest: "n \<notin> fst ` set imgs" by (auto simp: img)
  have r: "concat (map (manifest_tag_of n) routes) = []"
    using manifests_loop_other_image [OF ne, of H l sr np "{}" "sort_key fst tags"] by (simp add: m)
  show ?case
    unfolding img images_loop_Cons m using Cons.IH [OF rest] by (cases err) (simp_all add: r)
qed

lemma images_loop_tag_order:
  "distinct (map fst imgs) \<Longrightarrow>
     sorted (concat (map (manifest_tag_of n) (fst (images_loop H l sr np imgs))))
     \<and> distinct (concat (map (manifest_tag_of n) (fst (images_loop H l sr np imgs))))" if
  ok: "\<forall>(name, tags) \<in> set imgs. distinct (map fst tags)"
  using that
proof (induction imgs)
  case Nil
  show ?case by simp
next
  case (Cons img imgs)
  obtain name tags where img: "img = (name, tags)" by (cases img)
  obtain routes err where m: "manifests_loop H l sr np name {} (sort_key fst tags) = (routes, err)"
    by (cases "manifests_loop H l sr np name {} (sort_key fst tags)")
  from Cons.prems have d: "distinct (map fst imgs)" and nin: "name \<notin> fst ` set imgs"
    and ok': "\<forall>(name, tags) \<in> set imgs. distinct (map fst tags)"
    and dt: "distinct (map fst tags)"
    by (auto simp: img)
  show ?case
  proof (cases "n = name")
    case False
    have r: "concat (map (manifest_tag_of n) routes) = []"
      using manifests_loop_other_image [OF False, of H l sr np "{}" "sort_key fst tags"]
      by (simp add: m)
    show ?thesis
      unfolding img images_loop_Cons m using Cons.IH [OF d ok'] by (cases err) (simp_all add: r)
  next
    case True
    have p: "prefix (concat (map (manifest_tag_of n) routes)) (map fst (sort_key fst tags))"
      using manifests_loop_tag_order [of name H l sr np "{}" "sort_key fst tags"]
      by (simp add: m True)
    have "sorted (map fst (sort_key fst tags))" "distinct (map fst (sort_key fst tags))"
      using dt by (simp_all add: distinct_sort_key_fst)
    with p have s: "sorted (concat (map (manifest_tag_of n) routes))"
      "distinct (concat (map (manifest_tag_of n) routes))"
      by (auto intro: prefix_sorted prefix_distinct)
    from nin True have e: "concat (map (manifest_tag_of n) (fst (images_loop H l sr np imgs))) = []"
      by (intro images_loop_other_images) simp
    from s show ?thesis
      unfolding img images_loop_Cons m by (cases err) (simp_all add: e)
  qed
qed

lemma run_order:
  "sorted (concat (map tags_list_name (fst (create_config load H root later sr np wc oc))))
   \<and> distinct (concat (map tags_list_name (fst (create_config load H root later sr np wc oc))))
   \<and> sorted (concat (map (manifest_tag_of n) (fst (create_config load H root later sr np wc oc))))
   \<and> distinct (concat (map (manifest_tag_of n) (fst (create_config load H root later sr np wc oc))))"
proof (cases oc)
  case True
  then show ?thesis by (simp add: create_config_only)
next
  case False
  show ?thesis
  proof (cases "find_images load root")
    case (Inl e)
    with False show ?thesis by (simp add: create_config_scan)
  next
    case (Inr found)
    let ?imgs = "sort_key fst (foldl add_image [] found)"
    from images_ok_found [of found] have d: "distinct (map fst ?imgs)"
      and ok: "\<forall>(name, tags) \<in> set ?imgs. distinct (map fst tags)"
      by (auto simp: images_ok_def distinct_sort_key_fst)
    have "sorted (map fst ?imgs)" by simp
    with d images_loop_name_order [of H later sr np ?imgs]
    have "sorted (concat (map tags_list_name (fst (images_loop H later sr np ?imgs))))"
      "distinct (concat (map tags_list_name (fst (images_loop H later sr np ?imgs))))"
      by (auto intro: prefix_sorted prefix_distinct)
    with images_loop_tag_order [OF ok d, of n H later sr np] Inr False show ?thesis
      by (simp add: create_config_scan)
  qed
qed

lemma relisted_app_tree: "relisted app_tree app_tree_again"
  by (simp add: app_tree_def app_tree_again_def)

lemma find_images_app_tree:
  "find_images example_load app_tree = Inr [(''app'', ''v2'', docker_v2), (''app'', ''v1'', docker_v2)]"
  by (simp add: find_images_def listdir_def isdir_def isfile_def open_read_def check_tag_def
        app_tree_def MANIFEST_JSON_def)

lemma digests_app_tree:
  "compute_digest example_hash app_tree [''app'', ''v1'', MANIFEST_JSON] = Inr digest_a"
  "compute_digest example_hash app_tree [''app'', ''v2'', MANIFEST_JSON] = Inr digest_a"
  by (simp_all add: compute_digest_read open_read_def app_tree_def MANIFEST_JSON_def hexdigest_a)

lemma sorted_tags_app_tree:
  "sort_key fst [(''v2'', docker_v2), (''v1'', docker_v2)] = [(''v1'', docker_v2), (''v2'', docker_v2)]"
  "sort (map fst [(''v2'', docker_v2), (''v1'', docker_v2)]) = [''v1'', ''v2'']"
  by code_simp+

lemma create_config_app_tree:
  "create_config example_load example_hash app_tree app_tree ''/srv'' ''/'' True False =
     ([Constants,
       TagsList ''app'' [] (dumps_tag_list ''app'' [''v1'', ''v2'']),
       ManifestTag ''app'' ''v1'' docker_v2 [] digest_a ''/srv'',
       ManifestDigest ''app'' ''v1'' docker_v2 [] digest_a ''/srv'',
       ManifestTag ''app'' ''v2'' docker_v2 [] digest_a ''/srv'',
       AlreadyServed ''app'' ''v2'',
       Blobs [] ''/srv'' ''app'' ''v1/$1 v2/$1''], None)"
proof -
  have i: "foldl add_image [] [(''app'', ''v2'', docker_v2), (''app'', ''v1'', docker_v2)]
      = [(''app'', [(''v2'', docker_v2), (''v1'', docker_v2)])]"
    by (simp add: add_image_def)
  show ?thesis
    unfolding create_config_scan find_images_app_tree sum.case i
    by (simp add: sorted_tags_app_tree images_loop_Cons manifests_loop_Cons digests_app_tree
          lstrip_def)
qed

section \<open>The checks on a manifest\<close>

lemma check_data_accepts:
  "check_data data = Inr (Some m) \<longleftrightarrow>
     (\<exists>kvs v. data = JObject kvs \<and> map_of kvs ''schemaVersion'' = Some v \<and> py_eq_int v 2
        \<and> map_of kvs ''mediaType'' = Some (JString m) \<and> m \<in> set media_types)"
proof (cases data)
  case (JObject kvs)
  have mt: "media_type_in x media_types = Some m \<longleftrightarrow> x = JString m \<and> m \<in> set media_types" for x
    by (cases x) auto
  show ?thesis
  proof (cases "map_of kvs ''schemaVersion''")
    case None
    then show ?thesis by (auto simp: check_data_def JObject)
  next
    case (Some v)
    show ?thesis
    proof (cases "map_of kvs ''mediaType''")
      case None
      with Some show ?thesis by (auto simp: check_data_def JObject)
    next
      case m: (Some x)
      with Some mt [of x] show ?thesis by (auto simp: check_data_def JObject)
    qed
  qed
qed (auto simp: check_data_def)

lemma check_data_raises:
  "(\<exists>e. check_data data = Inl e) \<longleftrightarrow> truthy data \<and> (\<forall>kvs. data \<noteq> JObject kvs)"
  by (cases data) (auto simp: check_data_def)

lemma check_tag_accepts:
  "check_tag load root name tag = Inr (Some m) \<longleftrightarrow>
     isdir root [name, tag]
     \<and> (\<exists>content data. open_read root [name, tag, MANIFEST_JSON] = Inr content
           \<and> load content = Loaded data \<and> check_data data = Inr (Some m))"
proof (cases "isdir root [name, tag] \<and> isfile root [name, tag, MANIFEST_JSON]")
  case False
  then show ?thesis
    by (auto simp: check_tag_def isfile_def open_read_def split: option.splits node.splits)
next
  case True
  then obtain content where c: "open_read root [name, tag, MANIFEST_JSON] = Inr content"
    by (auto simp: isfile_def open_read_def split: option.splits node.splits)
  have n: "check_data JNull = Inr None" by (simp add: check_data_def)
  show ?thesis
    using True c n by (cases "load content") (simp_all add: check_tag_def)
qed

lemma check_tag_raises:
  "(\<exists>e. check_tag load root name tag = Inl e) \<longleftrightarrow>
     isdir root [name, tag]
     \<and> (\<exists>content. open_read root [name, tag, MANIFEST_JSON] = Inr content
           \<and> ((\<exists>e. load content = Raised e)
               \<or> (\<exists>data. load content = Loaded data \<and> truthy data
                     \<and> (\<forall>kvs. data \<noteq> JObject kvs))))"
proof (cases "isdir root [name, tag] \<and> isfile root [name, tag, MANIFEST_JSON]")
  case False
  then show ?thesis
    by (auto simp: check_tag_def isfile_def open_read_def split: option.splits node.splits)
next
  case True
  then obtain content where c: "open_read root [name, tag, MANIFEST_JSON] = Inr content"
    by (auto simp: isfile_def open_read_def split: option.splits node.splits)
  have n: "check_data JNull = Inr None" by (simp add: check_data_def)
  show ?thesis
    using True c n check_data_raises
    by (cases "load content") (simp_all add: check_tag_def)
qed

section \<open>The example with a JSON array, evaluated\<close>

lemma example_load_array: "example_load manifest_array = Loaded (JArray [JInt 1])"
  unfolding example_load_def manifest_array_def manifest_a_def manifest_b_def ascii_def by simp

section \<open>The claims\<close>

text \<open>
  Claim C5. On a file that can be read, \<^verbatim>\<open>compute_digest\<close> returns the hash of the whole
  content of the file printed as 64 lowercase hexadecimal characters, the most significant
  digit first: the character at place \<open>i\<close> is the digit for bits \<open>4 * (63 - i)\<close> to
  \<open>4 * (63 - i) + 3\<close> of the hash, so that the string read as a hexadecimal number is the
  hash. It feeds the hash object the chunks that \<^verbatim>\<open>file.read(4096)\<close> returns: they are
  non-empty, at most 4096 bytes long, every chunk but the last has exactly 4096 bytes, and
  together they are the content. Two files with the same content have the same digest.
\<close>

theorem compute_digest_sha256_hex:
  assumes "open_read root filename = Inr content"
  shows "compute_digest H root filename
           = Inr (map (\<lambda>i. ''0123456789abcdef'' !
                        (unat (drop_bit (4 * (63 - i)) (H content)) mod 16)) [0..<64])
       \<and> (\<exists>d. compute_digest H root filename = Inr d \<and> length d = 64
              \<and> set d \<subseteq> set ''0123456789abcdef'' \<and> hex_value d = unat (H content))
       \<and> foldl sha256_update sha256_new (read_chunks content) = content
       \<and> (\<forall>chunk \<in> set (read_chunks content). chunk \<noteq> [] \<and> length chunk \<le> 4096)
       \<and> (\<forall>i. Suc i < length (read_chunks content) \<longrightarrow> length (read_chunks content ! i) = 4096)
       \<and> (\<forall>root' filename'. open_read root' filename' = Inr content \<longrightarrow>
             compute_digest H root' filename' = compute_digest H root filename)"
proof -
  have c: "compute_digest H root filename = Inr (hexdigest H content)"
    using assms by (rule compute_digest_read)
  have d: "\<exists>d. compute_digest H root filename = Inr d \<and> length d = 64
              \<and> set d \<subseteq> set ''0123456789abcdef'' \<and> hex_value d = unat (H content)"
    using c length_hexdigest [of H content] hexdigest_lowercase [of H content]
      hex_value_hexdigest [of H content]
    by blast
  have s: "compute_digest H root' filename' = compute_digest H root filename"
    if "open_read root' filename' = Inr content" for root' filename'
    using that c by (simp add: compute_digest_read)
  show ?thesis
    using c [unfolded hexdigest_explicit] d s hash_of_chunks [of content]
      read_chunks_bounds [of _ content] read_chunks_full [of _ content]
    by blast
qed

theorem compute_digest_sha256_hex_witness:
  "open_read long_tree [''app'', ''v1'', ''manifest.json''] = Inr long_file
   \<and> length long_file = 5000
   \<and> read_chunks long_file = [replicate 4096 0x61, replicate 904 0x62]
   \<and> edge_hash long_file = 0x006200611388
   \<and> compute_digest edge_hash long_tree [''app'', ''v1'', ''manifest.json'']
       = Inr ''0000000000000000000000000000000000000000000000000000006200611388''
   \<and> hex_value ''0000000000000000000000000000000000000000000000000000006200611388''
       = 0x006200611388"
proof -
  have h: "open_read long_tree [''app'', ''v1'', ''manifest.json''] = Inr long_file"
    by (simp add: open_read_def long_tree_def)
  have v: "hex_value ''0000000000000000000000000000000000000000000000000000006200611388''
       = 0x006200611388"
    by (simp add: hex_value_def digit_value_def)
  have "compute_digest edge_hash long_tree [''app'', ''v1'', ''manifest.json'']
       = Inr ''0000000000000000000000000000000000000000000000000000006200611388''"
    using compute_digest_sha256_hex [OF h, of edge_hash]
    unfolding edge_hash_long_file hexdigest_long_file by blast
  then show ?thesis
    using h v read_chunks_long_file edge_hash_long_file long_file_len by simp
qed

text \<open>
  Claim C10. Without a name prefix (the option absent, or empty) \<^verbatim>\<open>main\<close> passes the
  prefix \<^verbatim>\<open>/\<close>, which \<^verbatim>\<open>create_config\<close> strips to the empty string: the run is the run
  with the empty prefix, and every route of an image \<open>n\<close> is rooted at \<^verbatim>\<open>/v2/n/\<close>.
\<close>

theorem absent_name_prefix:
  "normalize_name_prefix None = ''/''
   \<and> normalize_name_prefix (Some []) = ''/''
   \<and> lstrip CHR ''/'' (normalize_name_prefix None) = []
   \<and> create_config load H root later sr (normalize_name_prefix None) wc oc
       = create_config load H root later sr [] wc oc
   \<and> main load H None omit only arg_sr root_path root later
       = main load H (Some []) omit only arg_sr root_path root later
   \<and> (\<forall>f \<in> set (fst (create_config load H root later sr (normalize_name_prefix None) wc oc)).
         \<forall>p n. route_base f = Some (p, n) \<longrightarrow> p = [] \<and> rooted_at (''/v2/'' @ n @ ''/'') f)"
proof -
  have n: "normalize_name_prefix None = ''/''" "normalize_name_prefix (Some []) = ''/''"
    by (simp_all add: normalize_name_prefix_def strip_def lstrip_def rstrip_def)
  have l: "lstrip CHR ''/'' ''/'' = lstrip CHR ''/'' []"
    by (simp add: lstrip_def)
  have c: "create_config load H root later sr ''/'' wc oc = create_config load H root later sr [] wc oc"
    using l by (rule create_config_lstrip)
  have r: "p = [] \<and> rooted_at (''/v2/'' @ n @ ''/'') f"
    if "f \<in> set (fst (create_config load H root later sr ''/'' wc oc))"
      and "route_base f = Some (p, n)" for f p n
  proof -
    from create_config_base [OF that] have "p = []" by (simp add: lstrip_def)
    with route_base_rooted [OF that(2)] show ?thesis by simp
  qed
  show ?thesis
    using c r by (simp add: n main_def lstrip_def)
qed

theorem absent_name_prefix_witness:
  "TagsList ''bar'' [] (dumps_tag_list ''bar'' [''latest''])
     \<in> set (fst (create_config example_load example_hash bar_tree bar_tree ''/srv''
                (normalize_name_prefix None) False False))
   \<and> rooted_at ''/v2/bar/'' (TagsList ''bar'' [] (dumps_tag_list ''bar'' [''latest'']))"
proof -
  have m: "TagsList ''bar'' [] (dumps_tag_list ''bar'' [''latest''])
     \<in> set (fst (create_config example_load example_hash bar_tree bar_tree ''/srv''
                (normalize_name_prefix None) False False))"
    by (simp add: create_config_bar_tree normalize_name_prefix_def strip_def lstrip_def rstrip_def)
  show ?thesis
    using m absent_name_prefix [of example_load example_hash bar_tree bar_tree "''/srv''" False False]
    by fastforce
qed




text \<open>
  Claim C7, as stated, fails for the combination in which the global fragments are
  disabled and \<^verbatim>\<open>only_constants\<close> is set: discovery would find the image \<^verbatim>\<open>bar\<close>, and the
  run without \<^verbatim>\<open>only_constants\<close> yields its fragments, but this run yields nothing.
\<close>

theorem omit_and_only_counterexample:
  "create_config example_load example_hash bar_tree bar_tree ''/srv'' ''/'' False True = ([], None)
   \<and> find_images example_load bar_tree = Inr [(''bar'', ''latest'', docker_v2)]
   \<and> length (fst (create_config example_load example_hash bar_tree bar_tree ''/srv'' ''/''
                 False False)) = 4"
  by (simp add: create_config_only create_config_bar_tree find_images_bar_tree)

text \<open>
  Claim C7, amended. With \<^verbatim>\<open>only_constants\<close> set, the run is the global fragment (or
  nothing, when \<^verbatim>\<open>with_constants\<close> is off) whatever the tree and the parser are: discovery
  is not performed. With \<^verbatim>\<open>only_constants\<close> not set and \<^verbatim>\<open>with_constants\<close> off, the run
  is the run of discovery and of the loop over the images, and the global fragment is not
  in it. With both flags at their defaults, the global fragment comes first and that
  same run follows.
\<close>

theorem constants_flags:
  "create_config load H root later sr np wc True = ((if wc then [Constants] else []), None)
   \<and> create_config load H root later sr np False False
       = (case find_images load root of
            Inl e \<Rightarrow> ([], Some e)
          | Inr found \<Rightarrow> images_loop H later sr np (sort_key fst (foldl add_image [] found)))
   \<and> Constants \<notin> set (fst (create_config load H root later sr np False False))
   \<and> create_config load H root later sr np True False
       = (Constants # fst (create_config load H root later sr np False False),
          snd (create_config load H root later sr np False False))"
proof -
  have a: "create_config load H root later sr np False False
       = (case find_images load root of
            Inl e \<Rightarrow> ([], Some e)
          | Inr found \<Rightarrow> images_loop H later sr np (sort_key fst (foldl add_image [] found)))"
    by (simp add: create_config_scan split: sum.splits)
  have b: "Constants \<notin> set (fst (create_config load H root later sr np False False))"
  proof
    assume c: "Constants \<in> set (fst (create_config load H root later sr np False False))"
    show False
    proof (cases "find_images load root")
      case (Inl e)
      with c show False by (simp add: a)
    next
      case (Inr found)
      with c have "Constants \<in> set (fst (images_loop H later sr np
          (sort_key fst (foldl add_image [] found))))"
        by (simp add: a)
      then show False by (rule images_loop_no_constants)
    qed
  qed
  have c: "create_config load H root later sr np True False
       = (Constants # fst (create_config load H root later sr np False False),
          snd (create_config load H root later sr np False False))"
    by (simp add: create_config_scan split: sum.splits)
  show ?thesis
    using a b c by (simp only: create_config_only simp_thms)
qed

theorem constants_flags_witness:
  "create_config example_load example_hash (File []) (File []) ''/srv'' ''/'' True True
     = ([Constants], None)
   \<and> create_config example_load example_hash (File []) (File []) ''/srv'' ''/'' True False
     = ([Constants], Some NotADirectoryError)
   \<and> create_config example_load example_hash bar_tree bar_tree ''/srv'' ''/'' True False
     = (Constants #
        fst (create_config example_load example_hash bar_tree bar_tree ''/srv'' ''/'' False False),
        None)"
proof -
  have e: "find_images example_load (File []) = Inl NotADirectoryError"
    by (simp add: find_images_def listdir_def)
  have n: "snd (create_config example_load example_hash bar_tree bar_tree ''/srv'' ''/'' False False)
      = None"
    by (simp add: create_config_bar_tree)
  show ?thesis
    using constants_flags [of example_load example_hash "File []" "File []" "''/srv''" "''/''" True]
      constants_flags [of example_load example_hash bar_tree bar_tree "''/srv''" "''/''" True]
    by (simp add: e n)
qed

text \<open>
  Claim C6. When the manifest of a tag cannot be read at the time its digest is computed,
  \<^verbatim>\<open>compute_digest\<close> raises the error of the file system, and no run yields a manifest
  route for that tag, by tag or by digest; and when discovery had yielded the tag, the run
  ends with an exception.
\<close>

theorem unreadable_manifest_aborts:
  assumes "open_read later [name, tag, MANIFEST_JSON] = Inl e"
  shows "compute_digest H later [name, tag, MANIFEST_JSON] = Inl e
     \<and> (\<forall>m p d s. ManifestTag name tag m p d s
            \<notin> set (fst (create_config load H root later sr np wc oc)))
     \<and> (\<forall>m p d s. ManifestDigest name tag m p d s
            \<notin> set (fst (create_config load H root later sr np wc oc)))
     \<and> (\<forall>found m. find_images load root = Inr found \<and> (name, tag, m) \<in> set found \<longrightarrow>
            snd (create_config load H root later sr np wc False) \<noteq> None)"
proof -
  have c: "compute_digest H later [name, tag, MANIFEST_JSON] = Inl e"
    using assms by (rule compute_digest_error)
  have t: "ManifestTag name tag m p d s \<notin> set (fst (create_config load H root later sr np wc oc))"
    for m p d s
    using run_tag_route [of name tag m p d s load H root later sr np wc oc] c by auto
  have d: "ManifestDigest name tag m p d s \<notin> set (fst (create_config load H root later sr np wc oc))"
    for m p d s
    using run_digest_route [of name tag m p d s load H root later sr np wc oc] t by blast
  have a: "snd (create_config load H root later sr np wc False) \<noteq> None"
    if found: "find_images load root = Inr found" and mem: "(name, tag, m) \<in> set found" for found m
  proof
    assume "snd (create_config load H root later sr np wc False) = None"
    with found have ok: "snd (images_loop H later sr np (sort_key fst (foldl add_image [] found))) = None"
      by (simp add: create_config_scan)
    have "images_ok []" by (simp add: images_ok_def)
    from image_of_found [OF this mem] obtain tags m'
      where img: "(name, tags) \<in> set (foldl add_image [] found)" and tm: "(tag, m') \<in> set tags"
      by auto
    from images_loop_blocks [OF ok] img
    have "snd (manifests_loop H later sr np name {} (sort_key fst tags)) = None" by auto
    from manifests_loop_all_digests [OF this, of tag m'] tm c show False by simp
  qed
  from c t d a show ?thesis by blast
qed

theorem unreadable_manifest_aborts_witness:
  "open_read vanished_tree [''bar'', ''latest'', MANIFEST_JSON] = Inl FileNotFoundError
   \<and> compute_digest example_hash vanished_tree [''bar'', ''latest'', MANIFEST_JSON]
       = Inl FileNotFoundError
   \<and> find_images example_load bar_tree = Inr [(''bar'', ''latest'', docker_v2)]
   \<and> fst (create_config example_load example_hash bar_tree vanished_tree ''/srv'' ''/'' True False)
       = [Constants, TagsList ''bar'' [] (dumps_tag_list ''bar'' [''latest''])]
   \<and> snd (create_config example_load example_hash bar_tree vanished_tree ''/srv'' ''/'' True False)
       \<noteq> None"
proof -
  have h: "open_read vanished_tree [''bar'', ''latest'', MANIFEST_JSON] = Inl FileNotFoundError"
    by (simp add: open_read_def vanished_tree_def MANIFEST_JSON_def)
  have c: "compute_digest example_hash vanished_tree [''bar'', ''latest'', MANIFEST_JSON]
       = Inl FileNotFoundError"
    using h by (rule compute_digest_error)
  have f: "fst (create_config example_load example_hash bar_tree vanished_tree ''/srv'' ''/'' True False)
       = [Constants, TagsList ''bar'' [] (dumps_tag_list ''bar'' [''latest''])]"
    by (simp add: create_config_scan find_images_bar_tree add_image_def images_loop_Cons
          manifests_loop_stop [OF c] lstrip_def)
  show ?thesis
    using h f find_images_bar_tree
      unreadable_manifest_aborts [OF h, of example_hash example_load bar_tree "''/srv''" "''/''"
        True False]
    by simp
qed

text \<open>
  Claim C9. The route of a manifest by tag is an exact match on
  \<^verbatim>\<open>/v2/{prefix}{name}/manifests/{tag}\<close> followed by the serving block of the tag: the
  directory of the tag as alias, the media type as default type, the digest header and the
  \<^verbatim>\<open>@404_tag\<close> handler, which the global fragment defines with the \<^verbatim>\<open>TAG_INVALID\<close> body. The
  route by digest is the same serving block behind the location
  \<^verbatim>\<open>/v2/{prefix}{name}/manifests/sha256:{digest}\<close>. Every manifest route of a run carries the
  stripped prefix, the server root, the media type recorded for the tag and the digest
  computed from the manifest of the tag; a route by digest comes with the route by tag of
  the same fields; and a run that ends normally has the route by tag of every tag of
  every image.
\<close>

theorem manifest_routes_serve_alike:
  \<open>render (ManifestTag name tag mt p d s)
      = ''\<newline>location = "/v2/'' @ p @ name @ ''/manifests/'' @ tag @ ''" {\<newline>'' @
        serving_block s name tag mt d
   \<and> render (ManifestDigest name tag mt p d s)
      = ''\<newline>location = "/v2/'' @ p @ name @ ''/manifests/sha256:'' @ d @ ''" {\<newline>'' @
        serving_block s name tag mt d
   \<and> suffix (''\<newline>location @404_tag {\<newline>    internal;\<newline>'' @
              ''    types { } default_type "application/json";\<newline>'' @
              ''    return 404 '{"errors": [{"code": "TAG_INVALID", '' @
              ''"message": "manifest tag did not match URI", "detail": ""}]}';\<newline>}\<newline>'')
        (render Constants)
   \<and> (\<forall>n t m q dg sv.
         ManifestTag n t m q dg sv \<in> set (fst (create_config load H root later sr np wc oc))
         \<or> ManifestDigest n t m q dg sv \<in> set (fst (create_config load H root later sr np wc oc))
         \<longrightarrow> q = lstrip CHR ''/'' np \<and> sv = sr
             \<and> compute_digest H later [n, t, MANIFEST_JSON] = Inr dg
             \<and> (\<exists>found tags. find_images load root = Inr found
                   \<and> (n, tags) \<in> set (foldl add_image [] found) \<and> (t, m) \<in> set tags)
             \<and> ManifestTag n t m q dg sv \<in> set (fst (create_config load H root later sr np wc oc)))
   \<and> (\<forall>found tags.
         snd (create_config load H root later sr np wc False) = None
         \<and> find_images load root = Inr found
         \<and> (name, tags) \<in> set (foldl add_image [] found) \<and> (tag, mt) \<in> set tags
         \<longrightarrow> (\<exists>dg. compute_digest H later [name, tag, MANIFEST_JSON] = Inr dg
               \<and> ManifestTag name tag mt (lstrip CHR ''/'' np) dg sr
                   \<in> set (fst (create_config load H root later sr np wc False))))\<close>
proof -
  let ?run = "create_config load H root later sr np wc oc"
  have c: \<open>suffix (''\<newline>location @404_tag {\<newline>    internal;\<newline>'' @
              ''    types { } default_type "application/json";\<newline>'' @
              ''    return 404 '{"errors": [{"code": "TAG_INVALID", '' @
              ''"message": "manifest tag did not match URI", "detail": ""}]}';\<newline>}\<newline>'')
        (render Constants)\<close>
    by (simp add: CONSTANTS_text suffix_def)
  have r: "q = lstrip CHR ''/'' np \<and> sv = sr
             \<and> compute_digest H later [n, t, MANIFEST_JSON] = Inr dg
             \<and> (\<exists>found tags. find_images load root = Inr found
                   \<and> (n, tags) \<in> set (foldl add_image [] found) \<and> (t, m) \<in> set tags)
             \<and> ManifestTag n t m q dg sv \<in> set (fst ?run)"
    if "ManifestTag n t m q dg sv \<in> set (fst ?run) \<or> ManifestDigest n t m q dg sv \<in> set (fst ?run)"
    for n t m q dg sv
  proof -
    from that run_digest_route [of n t m q dg sv load H root later sr np wc oc]
    have mem: "ManifestTag n t m q dg sv \<in> set (fst ?run)" by blast
    from run_tag_route [OF mem] run_tag_route_recorded [OF mem] mem show ?thesis by blast
  qed
  have e: "\<exists>dg. compute_digest H later [name, tag, MANIFEST_JSON] = Inr dg
               \<and> ManifestTag name tag mt (lstrip CHR ''/'' np) dg sr
                   \<in> set (fst (create_config load H root later sr np wc False))"
    if ok: "snd (create_config load H root later sr np wc False) = None"
      and found: "find_images load root = Inr found"
      and img: "(name, tags) \<in> set (foldl add_image [] found)" and tm: "(tag, mt) \<in> set tags"
    for found tags
  proof -
    obtain frs where run: "create_config load H root later sr np wc False = (frs, None)"
      using ok by (cases "create_config load H root later sr np wc False") simp
    from run_image_fragments(2) [OF run found img] tm
    have "\<exists>d. compute_digest H later [name, tag, MANIFEST_JSON] = Inr d
       \<and> ManifestTag name tag mt (lstrip CHR ''/'' np) d sr
           \<in> set (fst (manifests_loop H later sr np name {} (sort_key fst tags)))"
      by (intro manifests_loop_has_tag_route) simp_all
    then obtain dg where dg: "compute_digest H later [name, tag, MANIFEST_JSON] = Inr dg"
      and "ManifestTag name tag mt (lstrip CHR ''/'' np) dg sr
           \<in> set (image_block H later sr np (name, tags))"
      by (auto simp: image_block_def)
    with run_fragments_of_image [OF run found img] have "ManifestTag name tag mt (lstrip CHR ''/'' np) dg sr
        \<in> set frs" by blast
    with dg run show ?thesis by auto
  qed
  show ?thesis
    using c r e by (simp only: manifest_tag_text manifest_digest_text simp_thms) blast
qed

theorem manifest_routes_serve_alike_witness:
  \<open>ManifestDigest ''app'' ''v1'' docker_v2 [] digest_a ''/srv''
     \<in> set (fst (create_config example_load example_hash shared_tree shared_tree ''/srv'' ''/''
                False False))
   \<and> ManifestTag ''app'' ''v1'' docker_v2 [] digest_a ''/srv''
     \<in> set (fst (create_config example_load example_hash shared_tree shared_tree ''/srv'' ''/''
                False False))
   \<and> compute_digest example_hash shared_tree [''app'', ''v1'', MANIFEST_JSON] = Inr digest_a
   \<and> render (ManifestTag ''app'' ''v1'' docker_v2 [] digest_a ''/srv'')
       = ''\<newline>location = "/v2/app/manifests/v1" {\<newline>'' @
         serving_block ''/srv'' ''app'' ''v1'' docker_v2 digest_a
   \<and> render (ManifestDigest ''app'' ''v1'' docker_v2 [] digest_a ''/srv'')
       = ''\<newline>location = "/v2/app/manifests/sha256:'' @ digest_a @ ''" {\<newline>'' @
         serving_block ''/srv'' ''app'' ''v1'' docker_v2 digest_a
   \<and> serving_block ''/srv'' ''app'' ''v1'' docker_v2 digest_a
       = ''    alias /srv/app/v1/;\<newline>'' @
         ''    types { } default_type "application/vnd.docker.distribution.manifest.v2+json";\<newline>'' @
         ''    add_header 'Docker-Content-Digest' 'sha256:'' @ digest_a @ [CHR 0x27] @ '';\<newline>'' @
         ''    try_files manifest.json =404;\<newline>'' @
         ''    error_page 404 @404_tag;\<newline>}\<newline>''\<close>
proof -
  let ?run = "create_config example_load example_hash shared_tree shared_tree ''/srv'' ''/''
                False False"
  have m: "ManifestDigest ''app'' ''v1'' docker_v2 [] digest_a ''/srv'' \<in> set (fst ?run)"
    by (simp add: create_config_shared_tree)
  note inst = manifest_routes_serve_alike [of "''app''" "''v1''" docker_v2 "[]" digest_a "''/srv''"
      example_load example_hash shared_tree shared_tree "''/srv''" "''/''" False False]
  from inst m have "ManifestTag ''app'' ''v1'' docker_v2 [] digest_a ''/srv'' \<in> set (fst ?run)
      \<and> compute_digest example_hash shared_tree [''app'', ''v1'', MANIFEST_JSON] = Inr digest_a"
    by blast
  moreover from inst have "render (ManifestTag ''app'' ''v1'' docker_v2 [] digest_a ''/srv'')
       = ''\<newline>location = \"/v2/'' @ [] @ ''app'' @ ''/manifests/'' @ ''v1'' @ ''\" {\<newline>'' @
         serving_block ''/srv'' ''app'' ''v1'' docker_v2 digest_a"
    by blast
  moreover from inst have "render (ManifestDigest ''app'' ''v1'' docker_v2 [] digest_a ''/srv'')
       = ''\<newline>location = \"/v2/'' @ [] @ ''app'' @ ''/manifests/sha256:'' @ digest_a @ ''\" {\<newline>'' @
         serving_block ''/srv'' ''app'' ''v1'' docker_v2 digest_a"
    by blast
  moreover have \<open>serving_block ''/srv'' ''app'' ''v1'' docker_v2 digest_a
       = ''    alias /srv/app/v1/;\<newline>'' @
         ''    types { } default_type "application/vnd.docker.distribution.manifest.v2+json";\<newline>'' @
         ''    add_header 'Docker-Content-Digest' 'sha256:'' @ digest_a @ [CHR 0x27] @ '';\<newline>'' @
         ''    try_files manifest.json =404;\<newline>'' @
         ''    error_page 404 @404_tag;\<newline>}\<newline>''\<close>
    by (simp add: serving_block_def docker_v2_def)
  ultimately show ?thesis using m by simp
qed

text \<open>
  Claim C4. In a run that ends normally, the fragments of an image of the inventory are,
  in the order in which they are yielded, its tag list, its manifest routes and comments,
  and last one blob route. The blob route matches \<^verbatim>\<open>/v2/{prefix}{name}/blobs/sha256:\<close>
  followed by the group \<^verbatim>\<open>([a-f0-9]{64})\<close>, and its \<^verbatim>\<open>try_files\<close> lists \<^verbatim>\<open>{tag}/$1\<close> for
  the tags of the image in sorted order, then \<^verbatim>\<open>=404\<close>.
\<close>

theorem blob_route_per_image:
  assumes run: "create_config load H root later sr np wc False = (frs, None)"
    and found: "find_images load root = Inr found"
    and img: "(name, tags) \<in> set (foldl add_image [] found)"
  shows \<open>(\<exists>routes.
           filter (\<lambda>f. fragment_image f = Some name) frs
             = TagsList name (lstrip CHR ''/'' np) (dumps_tag_list name (sort (map fst tags))) #
               routes @
               [Blobs (lstrip CHR ''/'' np) sr name
                  (join '' '' (map (\<lambda>tag. tag @ ''/$1'') (sort (map fst tags))))]
           \<and> (\<forall>f \<in> set routes. \<not> is_blobs f)
           \<and> length (filter is_manifest_tag routes) = length tags)
     \<and> length (filter (\<lambda>f. is_blobs f \<and> fragment_image f = Some name) frs) = 1
     \<and> render (Blobs (lstrip CHR ''/'' np) sr name
                 (join '' '' (map (\<lambda>tag. tag @ ''/$1'') (sort (map fst tags)))))
         = ''\<newline>location ~ "/v2/'' @ lstrip CHR ''/'' np @ name @
           ''/blobs/sha256:([a-f0-9]{64})" {\<newline>'' @
           ''    alias '' @ sr @ ''/'' @ name @ ''/;\<newline>'' @
           ''    try_files '' @ concat (map (\<lambda>tag. tag @ ''/$1 '') (sort (map fst tags))) @
           ''=404;\<newline>}\<newline>''
     \<and> sorted (sort (map fst tags)) \<and> distinct (sort (map fst tags))
     \<and> set (sort (map fst tags)) = fst ` set tags\<close>
proof -
  let ?routes = "fst (manifests_loop H later sr np name {} (sort_key fst tags))"
  let ?blobs = "Blobs (lstrip CHR ''/'' np) sr name
                  (join '' '' (map (\<lambda>tag. tag @ ''/$1'') (sort (map fst tags))))"
  let ?list = "TagsList name (lstrip CHR ''/'' np) (dumps_tag_list name (sort (map fst tags)))"
  note blk = run_image_fragments [OF run found img]
  have b: "filter (\<lambda>f. fragment_image f = Some name) frs = ?list # ?routes @ [?blobs]"
    by (simp add: blk(1) image_block_def)
  have nb: "\<forall>f \<in> set ?routes. \<not> is_blobs f"
    using manifests_loop_no_blobs by blast
  have len: "length (filter is_manifest_tag ?routes) = length tags"
    using manifests_loop_length [OF blk(2)] by simp
  have "filter (\<lambda>f. is_blobs f \<and> fragment_image f = Some name) frs
      = filter is_blobs (filter (\<lambda>f. fragment_image f = Some name) frs)"
    by (simp add: conj_commute)
  also have "\<dots> = filter is_blobs ?routes @ [?blobs]"
    by (simp add: b)
  also have "filter is_blobs ?routes = []"
    using nb by (simp add: filter_empty_conv)
  finally have one: "length (filter (\<lambda>f. is_blobs f \<and> fragment_image f = Some name) frs) = 1"
    by simp
  from image_tags_distinct [OF img] have "length (sort (map fst tags)) \<noteq> 0"
    and d: "distinct (sort (map fst tags))"
    by simp_all
  then have ne: "sort (map fst tags) \<noteq> []"
    by (simp only: length_0_conv not_False_eq_True)
  show ?thesis
    using b nb len one d by (simp only: blobs_text [OF ne] simp_thms sorted_sort set_sort list.set_map)
      blast
qed

theorem blob_route_per_image_witness:
  \<open>filter (\<lambda>f. fragment_image f = Some ''app'')
       (fst (create_config example_load example_hash shared_tree shared_tree ''/srv'' ''/''
               False False))
     = [TagsList ''app'' [] (dumps_tag_list ''app'' [''v1'', ''v2'', ''v3'']),
        ManifestTag ''app'' ''v1'' docker_v2 [] digest_a ''/srv'',
        ManifestDigest ''app'' ''v1'' docker_v2 [] digest_a ''/srv'',
        ManifestTag ''app'' ''v2'' docker_v2 [] digest_a ''/srv'',
        AlreadyServed ''app'' ''v2'',
        ManifestTag ''app'' ''v3'' docker_v2 [] digest_b ''/srv'',
        ManifestDigest ''app'' ''v3'' docker_v2 [] digest_b ''/srv'',
        Blobs [] ''/srv'' ''app'' ''v1/$1 v2/$1 v3/$1'']
   \<and> length (filter (\<lambda>f. is_blobs f \<and> fragment_image f = Some ''app'')
        (fst (create_config example_load example_hash shared_tree shared_tree ''/srv'' ''/''
               False False))) = 1
   \<and> render (Blobs [] ''/srv'' ''app'' ''v1/$1 v2/$1 v3/$1'')
       = ''\<newline>location ~ "/v2/app/blobs/sha256:([a-f0-9]{64})" {\<newline>'' @
         ''    alias /srv/app/;\<newline>'' @
         ''    try_files v1/$1 v2/$1 v3/$1 =404;\<newline>}\<newline>''\<close>
proof -
  let ?tags = "[(''v2'', docker_v2), (''v1'', docker_v2), (''v3'', docker_v2)]"
  have img: "(''app'', ?tags) \<in> set (foldl add_image []
      [(''bar'', ''latest'', docker_v2), (''app'', ''v2'', docker_v2),
       (''app'', ''v1'', docker_v2), (''app'', ''v3'', docker_v2)])"
    unfolding images_shared_tree by simp
  note inst = blob_route_per_image [OF create_config_shared_tree find_images_shared_tree img]
  from inst have "length (filter (\<lambda>f. is_blobs f \<and> fragment_image f = Some ''app'')
        (fst (create_config example_load example_hash shared_tree shared_tree ''/srv'' ''/''
               False False))) = 1"
    unfolding create_config_shared_tree fst_conv by blast
  moreover from inst have \<open>render (Blobs (lstrip CHR ''/'' ''/'') ''/srv'' ''app''
                 (join '' '' (map (\<lambda>tag. tag @ ''/$1'') (sort (map fst ?tags)))))
         = ''\<newline>location ~ "/v2/'' @ lstrip CHR ''/'' ''/'' @ ''app'' @
           ''/blobs/sha256:([a-f0-9]{64})" {\<newline>'' @
           ''    alias '' @ ''/srv'' @ ''/'' @ ''app'' @ ''/;\<newline>'' @
           ''    try_files '' @ concat (map (\<lambda>tag. tag @ ''/$1 '') (sort (map fst ?tags))) @
           ''=404;\<newline>}\<newline>''\<close>
    by blast
  then have \<open>render (Blobs [] ''/srv'' ''app'' ''v1/$1 v2/$1 v3/$1'')
       = ''\<newline>location ~ "/v2/app/blobs/sha256:([a-f0-9]{64})" {\<newline>'' @
         ''    alias /srv/app/;\<newline>'' @
         ''    try_files v1/$1 v2/$1 v3/$1 =404;\<newline>}\<newline>''\<close>
    unfolding sorted_keys_app by (simp add: lstrip_def)
  ultimately show ?thesis
    by (simp add: create_config_shared_tree)
qed



text \<open>
  Claim C3. The output does not depend on the order in which the operating system lists
  the directories: on two trees with the same files, scanned and hashed, the generator
  yields the same fragments in the same order, and \<^verbatim>\<open>main\<close> writes the same text; one run
  ends with an exception exactly when the other does. In every run the image names of
  the tag lists are in strictly ascending order, and so are the tags of the routes by tag
  of each image.
\<close>

theorem output_independent_of_listing_order:
  assumes "relisted r1 r2" and "relisted l1 l2"
  shows "fst (create_config load H r1 l1 sr np wc oc) = fst (create_config load H r2 l2 sr np wc oc)
     \<and> (snd (create_config load H r1 l1 sr np wc oc) = None
          \<longleftrightarrow> snd (create_config load H r2 l2 sr np wc oc) = None)
     \<and> fst (main load H arg_prefix omit only arg_sr root_path r1 l1)
         = fst (main load H arg_prefix omit only arg_sr root_path r2 l2)
     \<and> sorted (concat (map tags_list_name (fst (create_config load H r1 l1 sr np wc oc))))
     \<and> distinct (concat (map tags_list_name (fst (create_config load H r1 l1 sr np wc oc))))
     \<and> (\<forall>n. sorted (concat (map (manifest_tag_of n) (fst (create_config load H r1 l1 sr np wc oc))))
            \<and> distinct (concat (map (manifest_tag_of n)
                  (fst (create_config load H r1 l1 sr np wc oc)))))"
proof -
  have m: "fst (main load H arg_prefix omit only arg_sr root_path r l)
      = concat (map render (fst (create_config load H r l
          (case arg_sr of None \<Rightarrow> root_path | Some s \<Rightarrow> if s = [] then root_path else s)
          (normalize_name_prefix arg_prefix) (\<not> omit) only)))" for r l
    by (simp add: main_def Let_def split: prod.splits)
  have "fst (main load H arg_prefix omit only arg_sr root_path r1 l1)
         = fst (main load H arg_prefix omit only arg_sr root_path r2 l2)"
    unfolding m using run_relisted [OF assms] by simp
  with run_relisted [OF assms, of load H sr np wc oc] run_order [of load H r1 l1 sr np wc oc]
  show ?thesis by blast
qed

theorem output_independent_of_listing_order_witness:
  "relisted app_tree app_tree_again
   \<and> listdir app_tree [] = Inr [''lib'', ''app'']
   \<and> listdir app_tree_again [] = Inr [''app'', ''lib'']
   \<and> listdir app_tree [''app''] = Inr [''v2'', ''v1'']
   \<and> listdir app_tree_again [''app''] = Inr [''v1'', ''v2'']
   \<and> fst (create_config example_load example_hash app_tree_again app_tree_again ''/srv'' ''/''
            True False)
       = [Constants,
          TagsList ''app'' [] (dumps_tag_list ''app'' [''v1'', ''v2'']),
          ManifestTag ''app'' ''v1'' docker_v2 [] digest_a ''/srv'',
          ManifestDigest ''app'' ''v1'' docker_v2 [] digest_a ''/srv'',
          ManifestTag ''app'' ''v2'' docker_v2 [] digest_a ''/srv'',
          AlreadyServed ''app'' ''v2'',
          Blobs [] ''/srv'' ''app'' ''v1/$1 v2/$1'']
   \<and> fst (create_config example_load example_hash app_tree app_tree ''/srv'' ''/'' True False)
       = fst (create_config example_load example_hash app_tree_again app_tree_again ''/srv'' ''/''
               True False)"
proof -
  have l: "listdir app_tree [] = Inr [''lib'', ''app'']"
    "listdir app_tree_again [] = Inr [''app'', ''lib'']"
    "listdir app_tree [''app''] = Inr [''v2'', ''v1'']"
    "listdir app_tree_again [''app''] = Inr [''v1'', ''v2'']"
    by (simp_all add: listdir_def app_tree_def app_tree_again_def)
  show ?thesis
    using l relisted_app_tree
      output_independent_of_listing_order [OF relisted_app_tree relisted_app_tree,
        of example_load example_hash "''/srv''" "''/''" True False]
    by (simp add: create_config_app_tree)
qed

text \<open>
  Claim C2 on a tree the code does not handle: \<^verbatim>\<open>app/v1/manifest.json\<close> holds the JSON array
  \<^verbatim>\<open>[1]\<close>, which \<^verbatim>\<open>json.load\<close> returns as a non-empty list. The list is truthy and has no
  attribute \<^verbatim>\<open>get\<close>: the checks raise \<^verbatim>\<open>AttributeError\<close>, discovery ends with it although
  \<^verbatim>\<open>bar/latest\<close> is a valid image, and the run yields the global fragment only.
\<close>

theorem truthy_non_object_aborts_discovery:
  "example_load manifest_array = Loaded (JArray [JInt 1])
   \<and> check_tag example_load array_tree ''bar'' ''latest'' = Inr (Some docker_v2)
   \<and> check_tag example_load array_tree ''app'' ''v1'' = Inl AttributeError
   \<and> find_images example_load array_tree = Inl AttributeError
   \<and> create_config example_load example_hash array_tree array_tree ''/srv'' ''/'' True False
       = ([Constants], Some AttributeError)"
proof -
  have a: "check_tag example_load array_tree ''bar'' ''latest'' = Inr (Some docker_v2)"
    by (simp add: check_tag_def isdir_def isfile_def open_read_def array_tree_def MANIFEST_JSON_def)
  have b: "check_tag example_load array_tree ''app'' ''v1'' = Inl AttributeError"
    by (simp add: check_tag_def isdir_def isfile_def open_read_def array_tree_def MANIFEST_JSON_def
          example_load_array check_data_def)
  have l: "listdir array_tree [] = Inr [''bar'', ''app'']"
    "listdir array_tree [''bar''] = Inr [''latest'']"
    "listdir array_tree [''app''] = Inr [''v1'']"
    "isdir array_tree [''bar'']" "isdir array_tree [''app'']"
    by (simp_all add: listdir_def isdir_def array_tree_def)
  have f: "find_images example_load array_tree = Inl AttributeError"
    by (simp add: find_images_def l a b)
  show ?thesis
    using a b f by (simp add: example_load_array create_config_scan)
qed

end
